theory Spec2Isabelle
  imports Main "HOL-Library.Word" "HOL-Library.Multiset"
begin

unbundle bit_operations_syntax

section \<open>The allocation tracker of memm.c\<close>

text \<open>
  A shallow embedding of \<^verbatim>\<open>memm.c\<close>. The target is an LP64 platform: \<^verbatim>\<open>size_t\<close> and
  \<^verbatim>\<open>void*\<close> are 64-bit words (\<open>+\<close>, \<open>-\<close> and \<open>*\<close> wrap around as in C), \<open>NULL\<close> is the
  word \<open>0\<close>. The chain hanging off a bucket (the \<^verbatim>\<open>next\<close> pointers) is a list, head
  first. The table \<^verbatim>\<open>hash_table[MEMM_HASH_TABLE_SIZE]\<close> is a function from the bucket
  index; only the indices below \<open>MEMM_HASH_TABLE_SIZE\<close> are ever read or written.
\<close>

type_synonym size_t = "64 word"
type_synonym ptr = "64 word"
type_synonym time_t = int

record memm_allocation_t =
  ptr :: ptr
  size' :: size_t
  file' :: string
  line :: int
  timestamp :: time_t

record memm_t =
  hash_table :: "nat \<Rightarrow> memm_allocation_t list"
  total_allocated :: size_t
  total_freed :: size_t
  peak_memory :: size_t
  allocation_count :: size_t
  free_count :: size_t

text \<open>The default of memm.h; the header refuses a value that is not a power of two.\<close>

definition MEMM_HASH_TABLE_SIZE :: nat where
  "MEMM_HASH_TABLE_SIZE = 2048"

text \<open>\<^verbatim>\<open>sizeof(memm_allocation_t)\<close> on LP64: five 8-byte fields and a padded int.\<close>

definition sizeof_memm_allocation_t :: size_t where
  "sizeof_memm_allocation_t = 48"

subsection \<open>The C library underneath\<close>

text \<open>
  The tracker calls the real \<^verbatim>\<open>malloc\<close>, \<^verbatim>\<open>calloc\<close>, \<^verbatim>\<open>realloc\<close>, \<^verbatim>\<open>free\<close> and
  \<^verbatim>\<open>time\<close>. What they answer is not decided by memm.c, so the world carries a script:
  the addresses the allocating calls will return, in call order (\<open>0\<close> is a failure, and
  an exhausted script fails), and the clock readings. Every call to the allocator is
  appended to \<open>libc_calls\<close>. A tracking node has no address of its own in the model, so
  releasing one is the call \<open>Free_node\<close>.
\<close>

datatype libc_call =
    Malloc size_t
  | Calloc size_t size_t
  | Realloc ptr size_t
  | Free ptr
  | Free_node

record world =
  g_memm :: memm_t
  heap_script :: "ptr list"
  time_script :: "time_t list"
  libc_calls :: "libc_call list"

definition libc_alloc :: "libc_call \<Rightarrow> world \<Rightarrow> ptr \<times> world" where
  "libc_alloc c w =
     (case heap_script w of
        [] \<Rightarrow> (0, w\<lparr>libc_calls := libc_calls w @ [c]\<rparr>)
      | p # ps \<Rightarrow> (p, w\<lparr>heap_script := ps, libc_calls := libc_calls w @ [c]\<rparr>))"

definition libc_free :: "libc_call \<Rightarrow> world \<Rightarrow> world" where
  "libc_free c w = w\<lparr>libc_calls := libc_calls w @ [c]\<rparr>"

definition libc_time :: "world \<Rightarrow> time_t \<times> world" where
  "libc_time w =
     (case time_script w of
        [] \<Rightarrow> (-1, w)
      | t # ts \<Rightarrow> (t, w\<lparr>time_script := ts\<rparr>))"

subsection \<open>Registry\<close>

definition memm_zero :: memm_t where
  "memm_zero = \<lparr>hash_table = (\<lambda>_. []), total_allocated = 0, total_freed = 0,
     peak_memory = 0, allocation_count = 0, free_count = 0\<rparr>"

text \<open>\<^verbatim>\<open>static memm_t g_memm = { 0 }\<close>, and what \<^verbatim>\<open>memm_init\<close> restores with memset.\<close>

definition memm_init :: "world \<Rightarrow> world" where
  "memm_init w = w\<lparr>g_memm := memm_zero\<rparr>"

definition memm_hash_ptr :: "ptr \<Rightarrow> nat" where
  "memm_hash_ptr p = unat (p AND (word_of_nat MEMM_HASH_TABLE_SIZE - 1))"

definition memm_register_allocation :: "ptr \<Rightarrow> size_t \<Rightarrow> string \<Rightarrow> int \<Rightarrow> world \<Rightarrow> world" where
  "memm_register_allocation p sz fl ln w =
     (if p = 0 then w
      else
        let hash = memm_hash_ptr p;
            (alloc, w1) = libc_alloc (Malloc sizeof_memm_allocation_t) w
        in if alloc = 0 then w1
           else
             let (now, w2) = libc_time w1;
                 g = g_memm w2;
                 node = \<lparr>ptr = p, size' = sz, file' = fl, line = ln, timestamp = now\<rparr>;
                 g1 = g\<lparr>hash_table := (hash_table g)(hash := node # hash_table g hash)\<rparr>;
                 g2 = g1\<lparr>total_allocated := total_allocated g1 + sz,
                         allocation_count := allocation_count g1 + 1\<rparr>;
                 current_usage = total_allocated g2 - total_freed g2;
                 g3 = (if current_usage > peak_memory g2
                       then g2\<lparr>peak_memory := current_usage\<rparr> else g2)
             in w2\<lparr>g_memm := g3\<rparr>)"

text \<open>
  The \<^verbatim>\<open>while (*current)\<close> walk of unregister: the first node whose \<open>ptr\<close> is the address
  is unlinked; the result is that node and the chain without it, or \<open>None\<close> when the walk
  reaches the end of the chain.
\<close>

fun unlink :: "ptr \<Rightarrow> memm_allocation_t list \<Rightarrow> (memm_allocation_t \<times> memm_allocation_t list) option" where
  "unlink p [] = None"
| "unlink p (a # as) =
     (if ptr a = p then Some (a, as)
      else (case unlink p as of
              None \<Rightarrow> None
            | Some (to_free, rest) \<Rightarrow> Some (to_free, a # rest)))"

definition memm_unregister_allocation :: "ptr \<Rightarrow> string \<Rightarrow> int \<Rightarrow> world \<Rightarrow> bool \<times> world" where
  "memm_unregister_allocation p fl ln w =
     (if p = 0 then (True, w)
      else
        let hash = memm_hash_ptr p;
            g = g_memm w
        in case unlink p (hash_table g hash) of
             Some (to_free, rest) \<Rightarrow>
               let g1 = g\<lparr>hash_table := (hash_table g)(hash := rest)\<rparr>;
                   g2 = g1\<lparr>total_freed := total_freed g1 + size' to_free,
                           free_count := free_count g1 + 1\<rparr>
               in (True, libc_free Free_node (w\<lparr>g_memm := g2\<rparr>))
           | None \<Rightarrow> (False, w))"

subsection \<open>Tracked allocation API\<close>

definition memm_malloc :: "size_t \<Rightarrow> string \<Rightarrow> int \<Rightarrow> world \<Rightarrow> ptr \<times> world" where
  "memm_malloc sz fl ln w =
     (let (p, w1) = libc_alloc (Malloc sz) w
      in if p \<noteq> 0 then (p, memm_register_allocation p sz fl ln w1) else (p, w1))"

definition memm_calloc :: "size_t \<Rightarrow> size_t \<Rightarrow> string \<Rightarrow> int \<Rightarrow> world \<Rightarrow> ptr \<times> world" where
  "memm_calloc num sz fl ln w =
     (let (p, w1) = libc_alloc (Calloc num sz) w
      in if p \<noteq> 0 then (p, memm_register_allocation p (num * sz) fl ln w1) else (p, w1))"

definition memm_realloc :: "ptr \<Rightarrow> size_t \<Rightarrow> string \<Rightarrow> int \<Rightarrow> world \<Rightarrow> ptr \<times> world" where
  "memm_realloc p sz fl ln w =
     (let w1 = (if p \<noteq> 0 then snd (memm_unregister_allocation p fl ln w) else w);
          (new_ptr, w2) = libc_alloc (Realloc p sz) w1
      in if new_ptr \<noteq> 0 then (new_ptr, memm_register_allocation new_ptr sz fl ln w2)
         else (new_ptr, w2))"

definition memm_free :: "ptr \<Rightarrow> string \<Rightarrow> int \<Rightarrow> world \<Rightarrow> world" where
  "memm_free p fl ln w =
     (let (found, w1) = memm_unregister_allocation p fl ln w
      in if found then libc_free (Free p) w1 else libc_free (Free p) w1)"

definition memm_get_current_usage :: "memm_t \<Rightarrow> size_t" where
  "memm_get_current_usage g = total_allocated g - total_freed g"

definition memm_get_peak_usage :: "memm_t \<Rightarrow> size_t" where
  "memm_get_peak_usage g = peak_memory g"

definition memm_get_allocation_count :: "memm_t \<Rightarrow> size_t" where
  "memm_get_allocation_count g = allocation_count g"

definition memm_get_free_count :: "memm_t \<Rightarrow> size_t" where
  "memm_get_free_count g = free_count g"

text \<open>
  The order in which the report loops visit the records: the buckets by index, each
  chain from its head.
\<close>

definition iterate :: "memm_t \<Rightarrow> memm_allocation_t list" where
  "iterate g = concat (map (hash_table g) [0..<MEMM_HASH_TABLE_SIZE])"

subsection \<open>A caller: sequences of tracked calls\<close>

text \<open>
  What a program linked against the tracker does to it: a sequence of calls of the four
  tracked operations, each with the arguments the redirection macros pass.
\<close>

datatype tracked_call =
    T_malloc size_t string int
  | T_calloc size_t size_t string int
  | T_realloc ptr size_t string int
  | T_free ptr string int

fun step :: "tracked_call \<Rightarrow> world \<Rightarrow> world" where
  "step (T_malloc sz fl ln) w = snd (memm_malloc sz fl ln w)"
| "step (T_calloc num sz fl ln) w = snd (memm_calloc num sz fl ln w)"
| "step (T_realloc p sz fl ln) w = snd (memm_realloc p sz fl ln w)"
| "step (T_free p fl ln) w = memm_free p fl ln w"

fun run :: "tracked_call list \<Rightarrow> world \<Rightarrow> world" where
  "run [] w = w"
| "run (c # cs) w = run cs (step c w)"

text \<open>The bytes of the live records, as a number that does not wrap.\<close>

definition live_bytes :: "memm_t \<Rightarrow> nat" where
  "live_bytes g = sum_list (map (\<lambda>r. unat (size' r)) (iterate g))"

text \<open>
  \<open>live_fits cs w\<close>: along the run of \<open>cs\<close> from \<open>w\<close>, the bytes of the live records
  stay below \<open>2 ^ 64\<close> before and after every call.
\<close>

fun live_fits :: "tracked_call list \<Rightarrow> world \<Rightarrow> bool" where
  "live_fits [] w = (live_bytes (g_memm w) < 2 ^ 64)"
| "live_fits (c # cs) w = (live_bytes (g_memm w) < 2 ^ 64 \<and> live_fits cs (step c w))"

text \<open>
  \<open>registered_bytes cs w\<close>: the bytes registered along the run of \<open>cs\<close> from \<open>w\<close>, as a
  number that does not wrap: each call raises \<open>total_allocated\<close> at most once, by the size
  it registers.
\<close>

fun registered_bytes :: "tracked_call list \<Rightarrow> world \<Rightarrow> nat" where
  "registered_bytes [] w = 0"
| "registered_bytes (c # cs) w =
     unat (total_allocated (g_memm (step c w)) - total_allocated (g_memm w))
       + registered_bytes cs (step c w)"

text \<open>
  The bucket invariant of the registry: every record in bucket \<open>i\<close> of the table has an
  address that hashes to \<open>i\<close>.
\<close>

definition bucket_inv :: "memm_t \<Rightarrow> bool" where
  "bucket_inv g =
     (\<forall>i \<in> set [0..<MEMM_HASH_TABLE_SIZE]. \<forall>r \<in> set (hash_table g i). memm_hash_ptr (ptr r) = i)"

subsection \<open>Program start\<close>

text \<open>
  The world when the program starts: the registry zeroed, no call made yet, and a script
  of what the C library is going to answer.
\<close>

definition start :: "ptr list \<Rightarrow> time_t list \<Rightarrow> world" where
  "start hs ts = \<lparr>g_memm = memm_zero, heap_script = hs, time_script = ts, libc_calls = []\<rparr>"

subsection \<open>Invariants of the counters\<close>

text \<open>
  \<open>usage_inv\<close>: the current usage is the bytes of the live records, read without
  wrap-around, and the peak is not below it. \<open>totals_inv\<close>: neither total has wrapped, so
  the bytes freed and the bytes still live add up to the bytes allocated.
\<close>

definition usage_inv :: "memm_t \<Rightarrow> bool" where
  "usage_inv g =
     (unat (memm_get_current_usage g) = live_bytes g \<and> memm_get_current_usage g \<le> peak_memory g)"

definition totals_inv :: "memm_t \<Rightarrow> bool" where
  "totals_inv g = (unat (total_freed g) + live_bytes g = unat (total_allocated g))"

subsection \<open>Report formatter\<close>

text \<open>
  The three report functions write into a caller's buffer with \<^verbatim>\<open>snprintf\<close>. A buffer is
  the list of the bytes behind the \<^verbatim>\<open>char*\<close> (\<open>None\<close> is the null pointer), positions are
  offsets from its start, and \<open>buffer_size\<close>, \<open>remaining\<close> and the offset \<open>cursor\<close> are
  natural numbers: the code subtracts from \<open>remaining\<close> only what it has checked to be
  smaller, so the \<^verbatim>\<open>size_t\<close> arithmetic on them never wraps.

  A C \<^verbatim>\<open>int\<close> is a 32-bit word, read as two's complement by \<open>sint\<close>: the result of
  \<^verbatim>\<open>snprintf\<close>, the locals \<^verbatim>\<open>written\<close> and \<^verbatim>\<open>total_written\<close>, and the value a report
  function returns. \<^verbatim>\<open>total_written += written\<close> is the addition of words: where C leaves
  the overflow of a signed addition undefined, the model has the sum modulo \<open>2 ^ 32\<close> that
  the hardware computes. A \<^verbatim>\<open>size_t\<close> stored in an \<^verbatim>\<open>int\<close> keeps its low 32 bits
  (\<open>word_of_nat\<close>), and a non-negative \<^verbatim>\<open>int\<close> cast to \<^verbatim>\<open>size_t\<close> or added to a pointer
  is \<open>unat\<close> of it: the code does both only with a \<^verbatim>\<open>written\<close> that it has tested not to
  be negative.

  \<open>snprintf buf at n s\<close> is \<^verbatim>\<open>snprintf(buffer + at, n, ...)\<close> where the format and its
  arguments expand to the text \<open>s\<close>: for \<open>n > 0\<close> it stores the first \<open>n - 1\<close> characters of
  \<open>s\<close> and a terminating zero. It returns the length of the whole of \<open>s\<close>, and it fails
  with \<open>-1\<close> when that length is above \<open>INT_MAX\<close>, which no \<^verbatim>\<open>int\<close> holds. The model
  follows glibc in what the C standard leaves open: the buffer is filled and terminated
  also when the call fails, and a size \<open>n\<close> above \<open>INT_MAX\<close> is accepted.
\<close>

type_synonym c_int = "32 word"

definition INT_MAX :: nat where
  "INT_MAX = 2147483647"

definition store :: "char list \<Rightarrow> nat \<Rightarrow> char list \<Rightarrow> char list" where
  "store buf at bytes = take at buf @ bytes @ drop (at + length bytes) buf"

definition snprintf :: "char list \<Rightarrow> nat \<Rightarrow> nat \<Rightarrow> string \<Rightarrow> char list \<times> c_int" where
  "snprintf buf at n s =
     (if n = 0 then buf else store buf at (take (n - 1) s @ [CHR 0x00]),
      if length s \<le> INT_MAX then word_of_nat (length s) else - 1)"

text \<open>
  The conversions: decimal for \<^verbatim>\<open>%zu\<close> and \<^verbatim>\<open>%d\<close>, a field of width 6 padded with spaces
  on the left for \<^verbatim>\<open>%6zu\<close>, and for \<^verbatim>\<open>%p\<close>, which the C standard leaves to the
  implementation, the form glibc prints.
\<close>

fun digits :: "nat \<Rightarrow> nat \<Rightarrow> string" where
  "digits b n =
     (if b < 2 \<or> n < b then [''0123456789abcdef'' ! n]
      else digits b (n div b) @ [''0123456789abcdef'' ! (n mod b)])"

declare digits.simps [simp del]

definition fmt_zu :: "size_t \<Rightarrow> string" where
  "fmt_zu x = digits 10 (unat x)"

definition fmt_6zu :: "size_t \<Rightarrow> string" where
  "fmt_6zu x = replicate (6 - length (fmt_zu x)) CHR '' '' @ fmt_zu x"

definition fmt_d :: "int \<Rightarrow> string" where
  "fmt_d i = (if i < 0 then ''-'' @ digits 10 (nat (- i)) else digits 10 (nat i))"

definition fmt_p :: "ptr \<Rightarrow> string" where
  "fmt_p p = (if p = 0 then ''(nil)'' else ''0x'' @ digits 16 (unat p))"

definition stats_text :: "memm_t \<Rightarrow> string" where
  "stats_text g =
     ''=== MEMORY STATISTICS ===\<newline>''
     @ ''Total allocated:      '' @ fmt_zu (total_allocated g) @ '' bytes\<newline>''
     @ ''Total freed:          '' @ fmt_zu (total_freed g) @ '' bytes\<newline>''
     @ ''Current usage:        '' @ fmt_zu (memm_get_current_usage g) @ '' bytes\<newline>''
     @ ''Peak memory usage:    '' @ fmt_zu (memm_get_peak_usage g) @ '' bytes\<newline>''
     @ ''Allocation calls:     '' @ fmt_zu (memm_get_allocation_count g) @ ''\<newline>''
     @ ''Free calls:           '' @ fmt_zu (memm_get_free_count g) @ ''\<newline>''
     @ ''Potential leaks:      ''
         @ fmt_zu (memm_get_allocation_count g - memm_get_free_count g) @ '' objects\<newline>''
     @ ''Hash table size:      '' @ fmt_d (int MEMM_HASH_TABLE_SIZE) @ '' buckets\<newline>''"

definition memm_get_stats_string :: "char list option \<Rightarrow> nat \<Rightarrow> memm_t \<Rightarrow> int \<times> char list option" where
  "memm_get_stats_string buffer buffer_size g =
     (case buffer of
        None \<Rightarrow> (- 1, None)
      | Some buf \<Rightarrow>
          if buffer_size \<le> 0 then (- 1, Some buf)
          else
            let (buf1, written) = snprintf buf 0 buffer_size (stats_text g)
            in if sint written < 0 then (- 1, Some (buf1[0 := CHR 0x00]))
               else if unat written \<ge> buffer_size
                 then (sint (word_of_nat (buffer_size - 1) :: c_int),
                       Some (buf1[buffer_size - 1 := CHR 0x00]))
               else (sint written, Some buf1))"

text \<open>
  \<open>memm_get_allocations_string\<close> and \<open>memm_get_leaks_string\<close> are the same code up to the
  format strings and the names of two counters (\<^verbatim>\<open>leak_count\<close>, \<^verbatim>\<open>leak_bytes\<close>), so the
  model has the code once, \<open>listing_string\<close>, over the header, the line of a record and the
  two closing lines. The locals of the function are a record.
\<close>

record locals =
  buffer :: "char list"
  cursor :: nat
  remaining :: nat
  total_written :: c_int
  total_count :: size_t
  total_bytes :: size_t

text \<open>The \<^verbatim>\<open>while (current && remaining > 1)\<close> loop over one chain.\<close>

fun chain_loop :: "(memm_allocation_t \<Rightarrow> string) \<Rightarrow> memm_allocation_t list \<Rightarrow> locals \<Rightarrow> locals" where
  "chain_loop fmt [] st = st"
| "chain_loop fmt (current # nxt) st =
     (if remaining st > 1 then
        (let (buf, written) = snprintf (buffer st) (cursor st) (remaining st) (fmt current)
         in if sint written < 0 then st\<lparr>buffer := buf\<rparr>
            else
              let written = (if unat written \<ge> remaining st
                             then word_of_nat (remaining st - 1) else written)
              in chain_loop fmt nxt
                   (st\<lparr>buffer := buf,
                       cursor := cursor st + unat written,
                       remaining := remaining st - unat written,
                       total_written := total_written st + written,
                       total_count := total_count st + 1,
                       total_bytes := total_bytes st + size' current\<rparr>))
      else st)"

text \<open>The \<^verbatim>\<open>for (i = 0; i < MEMM_HASH_TABLE_SIZE && remaining > 1; i++)\<close> loop, over the chains.\<close>

fun bucket_loop :: "(memm_allocation_t \<Rightarrow> string) \<Rightarrow> memm_allocation_t list list \<Rightarrow> locals \<Rightarrow> locals" where
  "bucket_loop fmt [] st = st"
| "bucket_loop fmt (bucket # buckets) st =
     (if remaining st > 1 then bucket_loop fmt buckets (chain_loop fmt bucket st) else st)"

text \<open>A closing line: the cursor is not advanced, only \<open>total_written\<close> is.\<close>

definition closing_line :: "string \<Rightarrow> locals \<Rightarrow> locals" where
  "closing_line s st =
     (let (buf, written) = snprintf (buffer st) (cursor st) (remaining st) s
      in if sint written > 0
         then st\<lparr>buffer := buf,
                 total_written := total_written st
                   + (if unat written \<ge> remaining st
                      then word_of_nat (remaining st - 1) else written)\<rparr>
         else st\<lparr>buffer := buf\<rparr>)"

definition listing_string ::
  "string \<Rightarrow> (memm_allocation_t \<Rightarrow> string) \<Rightarrow> string \<Rightarrow> (size_t \<Rightarrow> size_t \<Rightarrow> string)
     \<Rightarrow> char list option \<Rightarrow> nat \<Rightarrow> memm_t \<Rightarrow> int \<times> char list option" where
  "listing_string header fmt none_line total_line buffer_arg buffer_size g =
     (case buffer_arg of
        None \<Rightarrow> (- 1, None)
      | Some buf \<Rightarrow>
          if buffer_size = 0 then (- 1, Some buf)
          else
            let (buf1, written) = snprintf buf 0 buffer_size header
            in if sint written < 0 then (- 1, Some (buf1[0 := CHR 0x00]))
               else if unat written \<ge> buffer_size
                 then (sint (word_of_nat (buffer_size - 1) :: c_int),
                       Some (buf1[buffer_size - 1 := CHR 0x00]))
               else
                 let st = \<lparr>buffer = buf1, cursor = unat written,
                           remaining = buffer_size - unat written, total_written = written,
                           total_count = 0, total_bytes = 0\<rparr>;
                     st1 = bucket_loop fmt (map (hash_table g) [0..<MEMM_HASH_TABLE_SIZE]) st;
                     st2 = (if total_count st1 = 0 \<and> remaining st1 > 1
                              then closing_line none_line st1
                            else if remaining st1 > 1
                              then closing_line (total_line (total_count st1) (total_bytes st1)) st1
                            else st1);
                     buf3 = (if remaining st2 = 0 \<and> buffer_size > 0
                             then (buffer st2)[buffer_size - 1 := CHR 0x00] else buffer st2)
                 in (sint (total_written st2), Some buf3))"

definition allocation_line :: "memm_allocation_t \<Rightarrow> string" where
  "allocation_line r =
     ''  '' @ fmt_p (ptr r) @ '': '' @ fmt_6zu (size' r) @ '' bytes @ '' @ file' r
       @ '':'' @ fmt_d (line r) @ ''\<newline>''"

definition allocations_total_line :: "size_t \<Rightarrow> size_t \<Rightarrow> string" where
  "allocations_total_line n b =
     ''  Total: '' @ fmt_zu n @ '' allocations, '' @ fmt_zu b @ '' bytes\<newline>''"

definition memm_get_allocations_string :: "char list option \<Rightarrow> nat \<Rightarrow> memm_t \<Rightarrow> int \<times> char list option" where
  "memm_get_allocations_string =
     listing_string ''=== CURRENT ALLOCATIONS ===\<newline>'' allocation_line
       ''  No active allocations\<newline>'' allocations_total_line"

definition leak_line :: "memm_allocation_t \<Rightarrow> string" where
  "leak_line r =
     ''  LEAK: '' @ fmt_6zu (size' r) @ '' bytes at '' @ fmt_p (ptr r) @ '' ('' @ file' r
       @ '':'' @ fmt_d (line r) @ '')\<newline>''"

definition leaks_total_line :: "size_t \<Rightarrow> size_t \<Rightarrow> string" where
  "leaks_total_line n b =
     ''  TOTAL LEAKS: '' @ fmt_zu n @ '' allocations, '' @ fmt_zu b @ '' bytes\<newline>''"

definition memm_get_leaks_string :: "char list option \<Rightarrow> nat \<Rightarrow> memm_t \<Rightarrow> int \<times> char list option" where
  "memm_get_leaks_string =
     listing_string ''=== MEMORY LEAK REPORT ===\<newline>'' leak_line
       ''  No memory leaks detected!\<newline>'' leaks_total_line"

text \<open>
  The full reports, as texts: what a report function writes when the buffer has room for
  all of it. A listing is the header, the line of every record in iteration order, and a
  closing line chosen by the \<^verbatim>\<open>size_t\<close> count of the records.
\<close>

definition listing_text ::
  "string \<Rightarrow> (memm_allocation_t \<Rightarrow> string) \<Rightarrow> string \<Rightarrow> (size_t \<Rightarrow> size_t \<Rightarrow> string)
     \<Rightarrow> memm_t \<Rightarrow> string" where
  "listing_text header fmt none_line total_line g =
     header @ concat (map fmt (iterate g))
       @ (if (word_of_nat (length (iterate g)) :: size_t) = 0 then none_line
          else total_line (word_of_nat (length (iterate g))) (sum_list (map size' (iterate g))))"

definition allocations_text :: "memm_t \<Rightarrow> string" where
  "allocations_text =
     listing_text ''=== CURRENT ALLOCATIONS ===\<newline>'' allocation_line
       ''  No active allocations\<newline>'' allocations_total_line"

definition leaks_text :: "memm_t \<Rightarrow> string" where
  "leaks_text =
     listing_text ''=== MEMORY LEAK REPORT ===\<newline>'' leak_line
       ''  No memory leaks detected!\<newline>'' leaks_total_line"

text \<open>
  \<open>terminated cap st\<close>: the locals \<open>st\<close> of a listing into a buffer of capacity \<open>cap\<close>
  leave room for a terminator, and the buffer holds a zero within the capacity.

  \<open>emitted cap out st\<close>: the locals after the text \<open>out\<close> has been sent to the buffer with
  no failure of \<^verbatim>\<open>snprintf\<close>: the buffer starts with as much of \<open>out\<close> as \<open>cap - 1\<close>
  characters hold, then a zero at the cursor, and \<open>total_written\<close> is the cursor as an
  \<^verbatim>\<open>int\<close>.
\<close>

definition terminated :: "nat \<Rightarrow> locals \<Rightarrow> bool" where
  "terminated cap st =
     (1 \<le> remaining st \<and> cursor st + remaining st = cap \<and> cap \<le> length (buffer st)
      \<and> CHR 0x00 \<in> set (take cap (buffer st)))"

definition emitted :: "nat \<Rightarrow> string \<Rightarrow> locals \<Rightarrow> bool" where
  "emitted cap out st =
     (1 \<le> cap \<and> cap \<le> length (buffer st)
      \<and> cursor st = min (length out) (cap - 1)
      \<and> remaining st = cap - cursor st
      \<and> total_written st = word_of_nat (cursor st)
      \<and> take (cursor st + 1) (buffer st) = take (cap - 1) out @ [CHR 0x00])"

section \<open>Properties\<close>

subsection \<open>The registry\<close>

lemma memm_hash_ptr_less: "memm_hash_ptr p < MEMM_HASH_TABLE_SIZE"
proof -
  have "p AND 2047 \<le> 2047"
    by (rule word_and_le1)
  then have "unat (p AND 2047) \<le> unat (2047 :: 64 word)"
    by (simp only: word_le_nat_alt)
  then show ?thesis
    by (simp add: memm_hash_ptr_def MEMM_HASH_TABLE_SIZE_def)
qed

lemma unlink_None_iff: "unlink p xs = None \<longleftrightarrow> p \<notin> ptr ` set xs"
  by (induction xs) (auto split: option.splits)

lemma unlink_Some_mset:
  "unlink p xs = Some (r, rest) \<Longrightarrow> ptr r = p \<and> mset xs = add_mset r (mset rest)"
  by (induction xs arbitrary: rest) (auto split: if_splits option.splits)

lemma unlink_Some_set:
  "unlink p xs = Some (r, rest) \<Longrightarrow> r \<in> set xs \<and> set rest \<subseteq> set xs"
  by (induction xs arbitrary: rest) (auto split: if_splits option.splits)

lemma map_upd_upt_outside: "n \<le> h \<Longrightarrow> map (f(h := c)) [0..<n] = map f [0..<n]"
  by simp

lemma mset_concat_map_upd:
  "h < n \<Longrightarrow> mset (concat (map (f(h := c)) [0..<n])) + mset (f h)
             = mset (concat (map f [0..<n])) + mset c"
proof (induction n)
  case 0
  then show ?case by simp
next
  case (Suc n)
  show ?case
  proof (cases "h = n")
    case True
    have "map (f(n := c)) [0..<n] = map f [0..<n]" by simp
    with True show ?thesis by (simp add: fun_upd_same del: fun_upd_apply)
  next
    case False
    with Suc.prems have "h < n" by simp
    from Suc.IH [OF this] False show ?thesis by simp
  qed
qed

lemma set_iterate: "set (iterate g) = (\<Union>i\<in>{..<MEMM_HASH_TABLE_SIZE}. set (hash_table g i))"
  by (auto simp: iterate_def)

lemma mset_iterate_upd:
  "h < MEMM_HASH_TABLE_SIZE \<Longrightarrow>
     mset (iterate (g\<lparr>hash_table := (hash_table g)(h := c)\<rparr>)) + mset (hash_table g h)
       = mset (iterate g) + mset c"
  by (simp add: iterate_def mset_concat_map_upd)

lemma iterate_cong: "hash_table g' = hash_table g \<Longrightarrow> iterate g' = iterate g"
  by (simp add: iterate_def)

lemma live_bytes_mset: "live_bytes g = sum_mset (image_mset (\<lambda>r. unat (size' r)) (mset (iterate g)))"
  unfolding live_bytes_def
  by (metis mset_map sum_mset_sum_list)

lemma peak_update:
  "(if c > peak_memory g then g\<lparr>peak_memory := c\<rparr> else g) = g\<lparr>peak_memory := max (peak_memory g) c\<rparr>"
  by (cases g) (auto simp: max_def)

lemma register_g:
  "g_memm (memm_register_allocation p sz fl ln w) = g_memm w \<or>
   (\<exists>now. p \<noteq> 0 \<and>
      g_memm (memm_register_allocation p sz fl ln w) =
        (g_memm w)\<lparr>hash_table := (hash_table (g_memm w))(memm_hash_ptr p :=
             \<lparr>ptr = p, size' = sz, file' = fl, line = ln, timestamp = now\<rparr>
               # hash_table (g_memm w) (memm_hash_ptr p)),
           total_allocated := total_allocated (g_memm w) + sz,
           allocation_count := allocation_count (g_memm w) + 1,
           peak_memory := max (peak_memory (g_memm w))
              (total_allocated (g_memm w) + sz - total_freed (g_memm w))\<rparr>)"
  unfolding memm_register_allocation_def Let_def peak_update
  by (auto simp: libc_alloc_def libc_time_def split: list.splits prod.splits)

lemma unregister_g:
  "(g_memm (snd (memm_unregister_allocation p fl ln w)) = g_memm w \<and>
      (p = 0 \<or> unlink p (hash_table (g_memm w) (memm_hash_ptr p)) = None)) \<or>
   (\<exists>r rest. p \<noteq> 0 \<and> unlink p (hash_table (g_memm w) (memm_hash_ptr p)) = Some (r, rest) \<and>
      g_memm (snd (memm_unregister_allocation p fl ln w)) =
        (g_memm w)\<lparr>hash_table := (hash_table (g_memm w))(memm_hash_ptr p := rest),
           total_freed := total_freed (g_memm w) + size' r,
           free_count := free_count (g_memm w) + 1\<rparr>)"
  by (auto simp: memm_unregister_allocation_def libc_free_def Let_def split: option.splits)
lemma g_memm_libc_alloc: "g_memm (snd (libc_alloc c w)) = g_memm w"
  by (simp add: libc_alloc_def split: list.splits)

lemma g_memm_libc_free: "g_memm (libc_free c w) = g_memm w"
  by (simp add: libc_free_def)

lemma g_memm_memm_free:
  "g_memm (memm_free p fl ln w) = g_memm (snd (memm_unregister_allocation p fl ln w))"
  by (simp add: memm_free_def g_memm_libc_free split: prod.splits)

lemma iterate_memm_zero: "iterate memm_zero = []"
  by (simp add: iterate_def memm_zero_def)

lemma bucket_subset_iterate:
  "set (hash_table g (memm_hash_ptr p)) \<subseteq> set (iterate g)"
  using memm_hash_ptr_less [of p] by (auto simp: set_iterate)

lemma unlink_untracked:
  "p \<notin> ptr ` set (iterate g) \<Longrightarrow> unlink p (hash_table g (memm_hash_ptr p)) = None"
  using bucket_subset_iterate [of g p] by (auto simp: unlink_None_iff)

lemma unlink_head: "ptr a = p \<Longrightarrow> unlink p (a # as) = Some (a, as)"
  by simp

lemma step_g:
  "\<exists>wa. (g_memm wa = g_memm w \<or> (\<exists>p fl ln. g_memm wa = g_memm (snd (memm_unregister_allocation p fl ln w))))
       \<and> (g_memm (step c w) = g_memm wa
            \<or> (\<exists>q sz fl ln. g_memm (step c w) = g_memm (memm_register_allocation q sz fl ln wa)))"
proof (cases c)
  case (T_malloc sz fl ln)
  let ?wa = "snd (libc_alloc (Malloc sz) w)"
  have "g_memm ?wa = g_memm w" by (rule g_memm_libc_alloc)
  moreover have "g_memm (step c w) = g_memm ?wa
      \<or> g_memm (step c w) = g_memm (memm_register_allocation (fst (libc_alloc (Malloc sz) w)) sz fl ln ?wa)"
    by (simp add: T_malloc memm_malloc_def split: prod.splits)
  ultimately show ?thesis by blast
next
  case (T_calloc num sz fl ln)
  let ?wa = "snd (libc_alloc (Calloc num sz) w)"
  have "g_memm ?wa = g_memm w" by (rule g_memm_libc_alloc)
  moreover have "g_memm (step c w) = g_memm ?wa
      \<or> g_memm (step c w) = g_memm (memm_register_allocation (fst (libc_alloc (Calloc num sz) w)) (num * sz) fl ln ?wa)"
    by (simp add: T_calloc memm_calloc_def split: prod.splits)
  ultimately show ?thesis by blast
next
  case (T_realloc p sz fl ln)
  let ?w1 = "if p \<noteq> 0 then snd (memm_unregister_allocation p fl ln w) else w"
  let ?wa = "snd (libc_alloc (Realloc p sz) ?w1)"
  have "g_memm ?wa = g_memm ?w1" by (rule g_memm_libc_alloc)
  then have "g_memm ?wa = g_memm w \<or> g_memm ?wa = g_memm (snd (memm_unregister_allocation p fl ln w))"
    by (simp split: if_splits)
  moreover have "g_memm (step c w) = g_memm ?wa
      \<or> g_memm (step c w) = g_memm (memm_register_allocation (fst (libc_alloc (Realloc p sz) ?w1)) sz fl ln ?wa)"
    by (simp add: T_realloc memm_realloc_def Let_def split: prod.splits)
  ultimately show ?thesis by blast
next
  case (T_free p fl ln)
  have "g_memm (step c w) = g_memm (snd (memm_unregister_allocation p fl ln w))"
    by (simp add: T_free g_memm_memm_free)
  then show ?thesis by blast
qed

text \<open>An invariant of register and unregister is an invariant of every call.\<close>

lemma step_invariant:
  assumes reg: "\<And>p sz fl ln w. P (g_memm w) \<Longrightarrow> P (g_memm (memm_register_allocation p sz fl ln w))"
      and unreg: "\<And>p fl ln w. P (g_memm w) \<Longrightarrow> P (g_memm (snd (memm_unregister_allocation p fl ln w)))"
      and P: "P (g_memm w)"
  shows "P (g_memm (step c w))"
proof -
  from step_g [of w c] obtain wa where
    a: "g_memm wa = g_memm w \<or> (\<exists>p fl ln. g_memm wa = g_memm (snd (memm_unregister_allocation p fl ln w)))"
    and b: "g_memm (step c w) = g_memm wa
            \<or> (\<exists>q sz fl ln. g_memm (step c w) = g_memm (memm_register_allocation q sz fl ln wa))"
    by blast
  from a P have "P (g_memm wa)" by (auto intro: unreg)
  with b show ?thesis by (auto intro: reg)
qed

lemma run_invariant:
  assumes reg: "\<And>p sz fl ln w. P (g_memm w) \<Longrightarrow> P (g_memm (memm_register_allocation p sz fl ln w))"
      and unreg: "\<And>p fl ln w. P (g_memm w) \<Longrightarrow> P (g_memm (snd (memm_unregister_allocation p fl ln w)))"
  shows "P (g_memm w) \<Longrightarrow> P (g_memm (run cs w))"
proof (induction cs arbitrary: w)
  case Nil
  then show ?case by simp
next
  case (Cons c cs)
  have "P (g_memm (step c w))"
    using reg unreg Cons.prems by (rule step_invariant [where P = P])
  then show ?case by (simp add: Cons.IH)
qed

subsection \<open>bucket invariant\<close>

lemma bucket_inv_zero: "bucket_inv memm_zero"
  by (simp add: bucket_inv_def memm_zero_def)

lemma bucket_inv_register:
  assumes "bucket_inv (g_memm w)"
  shows "bucket_inv (g_memm (memm_register_allocation p sz fl ln w))"
  using register_g [of p sz fl ln w] assms
  by (auto simp: bucket_inv_def split: if_splits)

lemma bucket_inv_unregister:
  assumes "bucket_inv (g_memm w)"
  shows "bucket_inv (g_memm (snd (memm_unregister_allocation p fl ln w)))"
  using unregister_g [of p fl ln w] assms
  by (auto simp: bucket_inv_def split: if_splits dest!: unlink_Some_set)

lemma memm_hash_ptr_mod: "memm_hash_ptr p = unat p mod MEMM_HASH_TABLE_SIZE"
proof -
  have m: "p AND 2047 = take_bit 11 p"
    by (simp only: take_bit_eq_mask mask_eq_exp_minus_1) simp
  have "unat (take_bit 11 p) = take_bit 11 (unat p)" by (rule unsigned_take_bit_eq)
  also have "\<dots> = unat p mod 2 ^ 11" by (rule take_bit_eq_mod)
  finally have "unat (take_bit 11 p) = unat p mod 2 ^ 11" .
  with m have "unat (p AND 2047) = unat p mod 2 ^ 11" by (simp only:)
  then show ?thesis
    by (simp add: memm_hash_ptr_def MEMM_HASH_TABLE_SIZE_def)
qed

lemma register_other_bucket:
  "i \<noteq> memm_hash_ptr p \<Longrightarrow>
     hash_table (g_memm (memm_register_allocation p sz fl ln w)) i = hash_table (g_memm w) i"
  using register_g [of p sz fl ln w] by auto

lemma unregister_other_bucket:
  "i \<noteq> memm_hash_ptr p \<Longrightarrow>
     hash_table (g_memm (snd (memm_unregister_allocation p fl ln w))) i = hash_table (g_memm w) i"
  using unregister_g [of p fl ln w] by auto

lemma unregister_found:
  "p \<noteq> 0 \<Longrightarrow> fst (memm_unregister_allocation p fl ln w)
     = (p \<in> ptr ` set (hash_table (g_memm w) (memm_hash_ptr p)))"
  using unlink_None_iff [of p "hash_table (g_memm w) (memm_hash_ptr p)"]
  by (auto simp: memm_unregister_allocation_def Let_def split: option.splits)
subsection \<open>Live bytes\<close>

lemma mset_iterate_push:
  assumes "hash_table g' = (hash_table g)(memm_hash_ptr p := node # hash_table g (memm_hash_ptr p))"
  shows "mset (iterate g') = add_mset node (mset (iterate g))"
proof -
  have "iterate g' = iterate (g\<lparr>hash_table := (hash_table g)(memm_hash_ptr p := node # hash_table g (memm_hash_ptr p))\<rparr>)"
    by (rule iterate_cong) (simp add: assms)
  moreover from mset_iterate_upd [OF memm_hash_ptr_less, of g p "node # hash_table g (memm_hash_ptr p)"]
  have "mset (iterate (g\<lparr>hash_table := (hash_table g)(memm_hash_ptr p := node # hash_table g (memm_hash_ptr p))\<rparr>))
          = add_mset node (mset (iterate g))"
    by simp
  ultimately show ?thesis by simp
qed

lemma mset_iterate_unlink:
  assumes "unlink p (hash_table g (memm_hash_ptr p)) = Some (r, rest)"
      and "hash_table g' = (hash_table g)(memm_hash_ptr p := rest)"
  shows "mset (iterate g) = add_mset r (mset (iterate g'))"
proof -
  have "iterate g' = iterate (g\<lparr>hash_table := (hash_table g)(memm_hash_ptr p := rest)\<rparr>)"
    by (rule iterate_cong) (simp add: assms)
  moreover from unlink_Some_mset [OF assms(1)]
  have "mset (hash_table g (memm_hash_ptr p)) = add_mset r (mset rest)" by simp
  moreover note mset_iterate_upd [OF memm_hash_ptr_less, of g p rest]
  ultimately show ?thesis by simp
qed

lemma live_bytes_push:
  "hash_table g' = (hash_table g)(memm_hash_ptr p := node # hash_table g (memm_hash_ptr p))
     \<Longrightarrow> live_bytes g' = live_bytes g + unat (size' node)"
  by (simp add: live_bytes_mset mset_iterate_push)

lemma live_bytes_unlink:
  "unlink p (hash_table g (memm_hash_ptr p)) = Some (r, rest)
     \<Longrightarrow> hash_table g' = (hash_table g)(memm_hash_ptr p := rest)
     \<Longrightarrow> live_bytes g = live_bytes g' + unat (size' r)"
  by (simp add: live_bytes_mset mset_iterate_unlink)

lemma live_bytes_zero: "live_bytes memm_zero = 0"
  by (simp add: live_bytes_def iterate_memm_zero)

text \<open>What register and unregister do to the counters and to the live bytes.\<close>

lemma register_effect:
  "g_memm (memm_register_allocation p sz fl ln w) = g_memm w
   \<or> (total_allocated (g_memm (memm_register_allocation p sz fl ln w)) = total_allocated (g_memm w) + sz
      \<and> total_freed (g_memm (memm_register_allocation p sz fl ln w)) = total_freed (g_memm w)
      \<and> peak_memory (g_memm (memm_register_allocation p sz fl ln w))
          = max (peak_memory (g_memm w)) (total_allocated (g_memm w) + sz - total_freed (g_memm w))
      \<and> live_bytes (g_memm (memm_register_allocation p sz fl ln w)) = live_bytes (g_memm w) + unat sz)"
proof -
  from register_g [of p sz fl ln w] show ?thesis
  proof
    assume "g_memm (memm_register_allocation p sz fl ln w) = g_memm w"
    then show ?thesis by simp
  next
    assume "\<exists>now. p \<noteq> 0 \<and>
      g_memm (memm_register_allocation p sz fl ln w) =
        (g_memm w)\<lparr>hash_table := (hash_table (g_memm w))(memm_hash_ptr p :=
             \<lparr>ptr = p, size' = sz, file' = fl, line = ln, timestamp = now\<rparr>
               # hash_table (g_memm w) (memm_hash_ptr p)),
           total_allocated := total_allocated (g_memm w) + sz,
           allocation_count := allocation_count (g_memm w) + 1,
           peak_memory := max (peak_memory (g_memm w))
              (total_allocated (g_memm w) + sz - total_freed (g_memm w))\<rparr>"
    then obtain now where g': "g_memm (memm_register_allocation p sz fl ln w) =
        (g_memm w)\<lparr>hash_table := (hash_table (g_memm w))(memm_hash_ptr p :=
             \<lparr>ptr = p, size' = sz, file' = fl, line = ln, timestamp = now\<rparr>
               # hash_table (g_memm w) (memm_hash_ptr p)),
           total_allocated := total_allocated (g_memm w) + sz,
           allocation_count := allocation_count (g_memm w) + 1,
           peak_memory := max (peak_memory (g_memm w))
              (total_allocated (g_memm w) + sz - total_freed (g_memm w))\<rparr>"
      by blast
    have "live_bytes (g_memm (memm_register_allocation p sz fl ln w))
            = live_bytes (g_memm w) + unat (size' \<lparr>ptr = p, size' = sz, file' = fl, line = ln, timestamp = now\<rparr>)"
      by (rule live_bytes_push) (simp add: g')
    then show ?thesis by (simp add: g')
  qed
qed

lemma unregister_effect:
  "g_memm (snd (memm_unregister_allocation p fl ln w)) = g_memm w
   \<or> (\<exists>s. total_freed (g_memm (snd (memm_unregister_allocation p fl ln w))) = total_freed (g_memm w) + s
      \<and> total_allocated (g_memm (snd (memm_unregister_allocation p fl ln w))) = total_allocated (g_memm w)
      \<and> peak_memory (g_memm (snd (memm_unregister_allocation p fl ln w))) = peak_memory (g_memm w)
      \<and> live_bytes (g_memm w) = live_bytes (g_memm (snd (memm_unregister_allocation p fl ln w))) + unat s)"
proof -
  from unregister_g [of p fl ln w] show ?thesis
  proof
    assume "g_memm (snd (memm_unregister_allocation p fl ln w)) = g_memm w \<and>
      (p = 0 \<or> unlink p (hash_table (g_memm w) (memm_hash_ptr p)) = None)"
    then show ?thesis by simp
  next
    assume "\<exists>r rest. p \<noteq> 0 \<and> unlink p (hash_table (g_memm w) (memm_hash_ptr p)) = Some (r, rest) \<and>
      g_memm (snd (memm_unregister_allocation p fl ln w)) =
        (g_memm w)\<lparr>hash_table := (hash_table (g_memm w))(memm_hash_ptr p := rest),
           total_freed := total_freed (g_memm w) + size' r,
           free_count := free_count (g_memm w) + 1\<rparr>"
    then obtain r rest where u: "unlink p (hash_table (g_memm w) (memm_hash_ptr p)) = Some (r, rest)"
      and g': "g_memm (snd (memm_unregister_allocation p fl ln w)) =
        (g_memm w)\<lparr>hash_table := (hash_table (g_memm w))(memm_hash_ptr p := rest),
           total_freed := total_freed (g_memm w) + size' r,
           free_count := free_count (g_memm w) + 1\<rparr>"
      by blast
    have "live_bytes (g_memm w) = live_bytes (g_memm (snd (memm_unregister_allocation p fl ln w))) + unat (size' r)"
      by (rule live_bytes_unlink [OF u]) (simp add: g')
    then show ?thesis by (auto simp: g')
  qed
qed

subsection \<open>Current usage and peak\<close>

lemma usage_inv_register:
  assumes inv: "usage_inv (g_memm w)"
      and fits: "live_bytes (g_memm (memm_register_allocation p sz fl ln w)) < 2 ^ 64"
  shows "usage_inv (g_memm (memm_register_allocation p sz fl ln w))"
proof -
  let ?g = "g_memm w" and ?g' = "g_memm (memm_register_allocation p sz fl ln w)"
  from register_effect [of p sz fl ln w] show ?thesis
  proof
    assume "?g' = ?g"
    with inv show ?thesis by simp
  next
    assume e: "total_allocated ?g' = total_allocated ?g + sz
      \<and> total_freed ?g' = total_freed ?g
      \<and> peak_memory ?g' = max (peak_memory ?g) (total_allocated ?g + sz - total_freed ?g)
      \<and> live_bytes ?g' = live_bytes ?g + unat sz"
    let ?cu = "total_allocated ?g - total_freed ?g"
    have cu': "memm_get_current_usage ?g' = ?cu + sz"
      using e by (simp add: memm_get_current_usage_def)
    from inv have "unat ?cu = live_bytes ?g"
      by (simp add: usage_inv_def memm_get_current_usage_def)
    with e fits have "unat ?cu + unat sz < 2 ^ LENGTH(64)" by simp
    then have "unat (?cu + sz) = unat ?cu + unat sz"
      by (simp only: unat_add_lem)
    with \<open>unat ?cu = live_bytes ?g\<close> e have "unat (memm_get_current_usage ?g') = live_bytes ?g'"
      by (simp add: cu')
    moreover have "memm_get_current_usage ?g' \<le> peak_memory ?g'"
      using e by (simp add: memm_get_current_usage_def)
    ultimately show ?thesis by (simp add: usage_inv_def)
  qed
qed

lemma usage_inv_unregister:
  assumes inv: "usage_inv (g_memm w)"
  shows "usage_inv (g_memm (snd (memm_unregister_allocation p fl ln w)))"
proof -
  let ?g = "g_memm w" and ?g' = "g_memm (snd (memm_unregister_allocation p fl ln w))"
  from unregister_effect [of p fl ln w] show ?thesis
  proof
    assume "?g' = ?g"
    with inv show ?thesis by simp
  next
    assume "\<exists>s. total_freed ?g' = total_freed ?g + s
      \<and> total_allocated ?g' = total_allocated ?g
      \<and> peak_memory ?g' = peak_memory ?g
      \<and> live_bytes ?g = live_bytes ?g' + unat s"
    then obtain s where e: "total_freed ?g' = total_freed ?g + s"
      "total_allocated ?g' = total_allocated ?g"
      "peak_memory ?g' = peak_memory ?g"
      "live_bytes ?g = live_bytes ?g' + unat s"
      by blast
    let ?cu = "total_allocated ?g - total_freed ?g"
    from inv have cu: "unat ?cu = live_bytes ?g" and pk: "?cu \<le> peak_memory ?g"
      by (simp_all add: usage_inv_def memm_get_current_usage_def)
    have cu': "memm_get_current_usage ?g' = ?cu - s"
      using e by (simp add: memm_get_current_usage_def)
    from cu e have "unat s \<le> unat ?cu" by simp
    then have "s \<le> ?cu" by (simp only: word_le_nat_alt)
    then have sub: "unat (?cu - s) = unat ?cu - unat s" by (rule unat_sub)
    with cu e have "unat (memm_get_current_usage ?g') = live_bytes ?g'"
      by (simp add: cu')
    moreover from sub have "unat (?cu - s) \<le> unat ?cu" by simp
    then have "?cu - s \<le> ?cu" by (simp only: word_le_nat_alt)
    with pk have "memm_get_current_usage ?g' \<le> peak_memory ?g'"
      by (simp add: cu' e)
    ultimately show ?thesis by (simp add: usage_inv_def)
  qed
qed

lemma usage_inv_step:
  assumes inv: "usage_inv (g_memm w)"
      and fits: "live_bytes (g_memm (step c w)) < 2 ^ 64"
  shows "usage_inv (g_memm (step c w))"
proof -
  from step_g [of w c] obtain wa where
    a: "g_memm wa = g_memm w \<or> (\<exists>p fl ln. g_memm wa = g_memm (snd (memm_unregister_allocation p fl ln w)))"
    and b: "g_memm (step c w) = g_memm wa
            \<or> (\<exists>q sz fl ln. g_memm (step c w) = g_memm (memm_register_allocation q sz fl ln wa))"
    by blast
  from a inv have wa: "usage_inv (g_memm wa)"
    by (auto intro: usage_inv_unregister)
  from b show ?thesis
  proof
    assume "g_memm (step c w) = g_memm wa"
    with wa show ?thesis by simp
  next
    assume "\<exists>q sz fl ln. g_memm (step c w) = g_memm (memm_register_allocation q sz fl ln wa)"
    then obtain q sz fl ln where s: "g_memm (step c w) = g_memm (memm_register_allocation q sz fl ln wa)"
      by blast
    with fits have "live_bytes (g_memm (memm_register_allocation q sz fl ln wa)) < 2 ^ 64" by simp
    with wa have "usage_inv (g_memm (memm_register_allocation q sz fl ln wa))"
      by (rule usage_inv_register)
    with s show ?thesis by simp
  qed
qed

lemma live_fits_first: "live_fits cs w \<Longrightarrow> live_bytes (g_memm w) < 2 ^ 64"
  by (cases cs) simp_all

lemma usage_inv_run:
  "usage_inv (g_memm w) \<Longrightarrow> live_fits cs w \<Longrightarrow> usage_inv (g_memm (run cs w))"
proof (induction cs arbitrary: w)
  case Nil
  then show ?case by simp
next
  case (Cons c cs)
  from Cons.prems have f: "live_fits cs (step c w)" by simp
  then have "live_bytes (g_memm (step c w)) < 2 ^ 64" by (rule live_fits_first)
  with Cons.prems have "usage_inv (g_memm (step c w))" by (simp add: usage_inv_step)
  with f show ?case by (simp add: Cons.IH)
qed

lemma live_fits_take: "live_fits cs w \<Longrightarrow> live_fits (take k cs) w"
proof (induction cs arbitrary: k w)
  case Nil
  then show ?case by simp
next
  case (Cons c cs)
  then show ?case by (cases k) simp_all
qed

lemma usage_inv_zero: "usage_inv memm_zero"
  by (simp add: usage_inv_def live_bytes_zero memm_get_current_usage_def) (simp add: memm_zero_def)

lemma peak_memory_step: "peak_memory (g_memm w) \<le> peak_memory (g_memm (step c w))"
proof (rule step_invariant [where P = "\<lambda>g. peak_memory (g_memm w) \<le> peak_memory g"])
  fix p sz fl ln and v :: world
  assume "peak_memory (g_memm w) \<le> peak_memory (g_memm v)"
  with register_effect [of p sz fl ln v]
  show "peak_memory (g_memm w) \<le> peak_memory (g_memm (memm_register_allocation p sz fl ln v))"
    by (auto simp: max_def)
next
  fix p fl ln and v :: world
  assume "peak_memory (g_memm w) \<le> peak_memory (g_memm v)"
  with unregister_effect [of p fl ln v]
  show "peak_memory (g_memm w) \<le> peak_memory (g_memm (snd (memm_unregister_allocation p fl ln v)))"
    by auto
next
  show "peak_memory (g_memm w) \<le> peak_memory (g_memm w)" by simp
qed

subsection \<open>The totals\<close>

lemma totals_inv_register:
  assumes inv: "totals_inv (g_memm w)"
      and fits: "unat (total_allocated (g_memm w))
                 + unat (total_allocated (g_memm (memm_register_allocation p sz fl ln w))
                          - total_allocated (g_memm w)) < 2 ^ 64"
  shows "totals_inv (g_memm (memm_register_allocation p sz fl ln w))"
proof -
  let ?g = "g_memm w" and ?g' = "g_memm (memm_register_allocation p sz fl ln w)"
  from register_effect [of p sz fl ln w] show ?thesis
  proof
    assume "?g' = ?g"
    with inv show ?thesis by simp
  next
    assume e: "total_allocated ?g' = total_allocated ?g + sz
      \<and> total_freed ?g' = total_freed ?g
      \<and> peak_memory ?g' = max (peak_memory ?g) (total_allocated ?g + sz - total_freed ?g)
      \<and> live_bytes ?g' = live_bytes ?g + unat sz"
    with fits have "unat (total_allocated ?g) + unat sz < 2 ^ LENGTH(64)" by simp
    then have "unat (total_allocated ?g + sz) = unat (total_allocated ?g) + unat sz"
      by (simp only: unat_add_lem)
    with inv e show ?thesis by (simp add: totals_inv_def)
  qed
qed

lemma totals_inv_unregister:
  assumes inv: "totals_inv (g_memm w)"
  shows "totals_inv (g_memm (snd (memm_unregister_allocation p fl ln w)))
       \<and> total_allocated (g_memm (snd (memm_unregister_allocation p fl ln w))) = total_allocated (g_memm w)"
proof -
  let ?g = "g_memm w" and ?g' = "g_memm (snd (memm_unregister_allocation p fl ln w))"
  from unregister_effect [of p fl ln w] show ?thesis
  proof
    assume "?g' = ?g"
    with inv show ?thesis by simp
  next
    assume "\<exists>s. total_freed ?g' = total_freed ?g + s
      \<and> total_allocated ?g' = total_allocated ?g
      \<and> peak_memory ?g' = peak_memory ?g
      \<and> live_bytes ?g = live_bytes ?g' + unat s"
    then obtain s where e: "total_freed ?g' = total_freed ?g + s"
      "total_allocated ?g' = total_allocated ?g"
      "peak_memory ?g' = peak_memory ?g"
      "live_bytes ?g = live_bytes ?g' + unat s"
      by blast
    from inv e have "unat (total_freed ?g) + unat s \<le> unat (total_allocated ?g)"
      by (simp add: totals_inv_def)
    moreover have "unat (total_allocated ?g) < 2 ^ LENGTH(64)" by (rule unsigned_less)
    ultimately have "unat (total_freed ?g) + unat s < 2 ^ LENGTH(64)" by simp
    then have "unat (total_freed ?g + s) = unat (total_freed ?g) + unat s"
      by (simp only: unat_add_lem)
    with inv e show ?thesis by (simp add: totals_inv_def)
  qed
qed

lemma totals_inv_step:
  assumes inv: "totals_inv (g_memm w)"
      and fits: "unat (total_allocated (g_memm w))
                 + unat (total_allocated (g_memm (step c w)) - total_allocated (g_memm w)) < 2 ^ 64"
  shows "totals_inv (g_memm (step c w))"
proof -
  from step_g [of w c] obtain wa where
    a: "g_memm wa = g_memm w \<or> (\<exists>p fl ln. g_memm wa = g_memm (snd (memm_unregister_allocation p fl ln w)))"
    and b: "g_memm (step c w) = g_memm wa
            \<or> (\<exists>q sz fl ln. g_memm (step c w) = g_memm (memm_register_allocation q sz fl ln wa))"
    by blast
  from a inv have wa: "totals_inv (g_memm wa) \<and> total_allocated (g_memm wa) = total_allocated (g_memm w)"
    by (auto dest: totals_inv_unregister)
  from b show ?thesis
  proof
    assume "g_memm (step c w) = g_memm wa"
    with wa show ?thesis by simp
  next
    assume "\<exists>q sz fl ln. g_memm (step c w) = g_memm (memm_register_allocation q sz fl ln wa)"
    then obtain q sz fl ln where s: "g_memm (step c w) = g_memm (memm_register_allocation q sz fl ln wa)"
      by blast
    with fits wa have "unat (total_allocated (g_memm wa))
        + unat (total_allocated (g_memm (memm_register_allocation q sz fl ln wa))
                 - total_allocated (g_memm wa)) < 2 ^ 64"
      by simp
    with wa have "totals_inv (g_memm (memm_register_allocation q sz fl ln wa))"
      by (simp add: totals_inv_register)
    with s show ?thesis by simp
  qed
qed

lemma unat_add_diff:
  fixes x y :: "64 word"
  assumes "unat x + unat (y - x) < 2 ^ 64"
  shows "unat y = unat x + unat (y - x)"
proof -
  from assms have "unat x + unat (y - x) < 2 ^ LENGTH(64)" by simp
  then have "unat (x + (y - x)) = unat x + unat (y - x)"
    by (simp only: unat_add_lem)
  then show ?thesis by simp
qed

lemma totals_inv_run:
  "totals_inv (g_memm w)
     \<Longrightarrow> unat (total_allocated (g_memm w)) + registered_bytes cs w < 2 ^ 64
     \<Longrightarrow> totals_inv (g_memm (run cs w))"
proof (induction cs arbitrary: w)
  case Nil
  then show ?case by simp
next
  case (Cons c cs)
  let ?d = "unat (total_allocated (g_memm (step c w)) - total_allocated (g_memm w))"
  from Cons.prems have f: "unat (total_allocated (g_memm w)) + ?d < 2 ^ 64" by simp
  with Cons.prems have i: "totals_inv (g_memm (step c w))" by (simp add: totals_inv_step)
  from f have "unat (total_allocated (g_memm (step c w))) = unat (total_allocated (g_memm w)) + ?d"
    by (rule unat_add_diff)
  with Cons.prems have "unat (total_allocated (g_memm (step c w))) + registered_bytes cs (step c w) < 2 ^ 64"
    by simp
  with i show ?case by (simp add: Cons.IH)
qed

lemma registered_bytes_take: "registered_bytes (take k cs) w \<le> registered_bytes cs w"
proof (induction cs arbitrary: k w)
  case Nil
  then show ?case by simp
next
  case (Cons c cs)
  then show ?case by (cases k) simp_all
qed

lemma totals_inv_zero: "totals_inv memm_zero"
  by (simp add: totals_inv_def live_bytes_zero) (simp add: memm_zero_def)

lemma totals_inv_le: "totals_inv g \<Longrightarrow> total_freed g \<le> total_allocated g"
  by (simp add: totals_inv_def word_le_nat_alt)

text \<open>Whatever has wrapped, the difference of the totals is the live bytes modulo \<open>2 ^ 64\<close>.\<close>

lemma usage_mod_run:
  "total_allocated (g_memm (run cs (start hs ts))) - total_freed (g_memm (run cs (start hs ts)))
     = word_of_nat (live_bytes (g_memm (run cs (start hs ts))))"
proof (rule run_invariant [where P = "\<lambda>g. total_allocated g - total_freed g = word_of_nat (live_bytes g)"])
  fix p sz fl ln and v :: world
  assume "total_allocated (g_memm v) - total_freed (g_memm v) = word_of_nat (live_bytes (g_memm v))"
  with register_effect [of p sz fl ln v]
  show "total_allocated (g_memm (memm_register_allocation p sz fl ln v))
          - total_freed (g_memm (memm_register_allocation p sz fl ln v))
        = word_of_nat (live_bytes (g_memm (memm_register_allocation p sz fl ln v)))"
    by auto
next
  fix p fl ln and v :: world
  assume "total_allocated (g_memm v) - total_freed (g_memm v) = word_of_nat (live_bytes (g_memm v))"
  with unregister_effect [of p fl ln v]
  show "total_allocated (g_memm (snd (memm_unregister_allocation p fl ln v)))
          - total_freed (g_memm (snd (memm_unregister_allocation p fl ln v)))
        = word_of_nat (live_bytes (g_memm (snd (memm_unregister_allocation p fl ln v))))"
    by (auto simp: diff_diff_eq [symmetric])
next
  show "total_allocated (g_memm (start hs ts)) - total_freed (g_memm (start hs ts))
          = word_of_nat (live_bytes (g_memm (start hs ts)))"
    by (simp add: start_def live_bytes_zero) (simp add: memm_zero_def)
qed

text \<open>Computing the live bytes of a table written out bucket by bucket.\<close>

lemma table_bytes_empty:
  "sum_list (map f (concat (map (\<lambda>_. []) [0..<n]))) = (0::nat)"
  by (induction n) simp_all

lemma table_bytes_upd:
  fixes f :: "'a \<Rightarrow> nat"
  assumes "h < n"
  shows "sum_list (map f (concat (map (t(h := c)) [0..<n])))
           = sum_list (map f (concat (map t [0..<n]))) + sum_list (map f c) - sum_list (map f (t h))"
proof -
  from mset_concat_map_upd [OF assms, of t c]
  have "image_mset f (mset (concat (map (t(h := c)) [0..<n])) + mset (t h))
          = image_mset f (mset (concat (map t [0..<n])) + mset c)"
    by simp
  then have "sum_mset (image_mset f (mset (concat (map (t(h := c)) [0..<n])) + mset (t h)))
          = sum_mset (image_mset f (mset (concat (map t [0..<n])) + mset c))"
    by simp
  then have "sum_list (map f (concat (map (t(h := c)) [0..<n]))) + sum_list (map f (t h))
          = sum_list (map f (concat (map t [0..<n]))) + sum_list (map f c)"
    by (simp add: sum_mset_sum_list [symmetric] del: mset_concat)
  then show ?thesis by simp
qed

subsection \<open>Unfolding a run on a concrete input\<close>

lemmas run_unfold =
  memm_malloc_def memm_calloc_def memm_realloc_def memm_free_def
  memm_register_allocation_def memm_unregister_allocation_def
  libc_alloc_def libc_free_def libc_time_def start_def memm_zero_def
  memm_hash_ptr_def MEMM_HASH_TABLE_SIZE_def Let_def

lemmas live_unfold =
  live_bytes_def iterate_def table_bytes_upd table_bytes_empty

subsection \<open>Release of an address the registry does not hold\<close>

text \<open>
  C4. Releasing a non-null address that has no live record: unregister answers false, the
  five counters and every bucket chain stay as they were (the registry state is
  unchanged), and exactly one call reaches the allocator, the release of that address.
\<close>

theorem untracked_release_forwarded:
  assumes "p \<noteq> 0" and "p \<notin> ptr ` set (iterate (g_memm w))"
  shows "fst (memm_unregister_allocation p fl ln w) = False
       \<and> g_memm (memm_free p fl ln w) = g_memm w
       \<and> libc_calls (memm_free p fl ln w) = libc_calls w @ [Free p]"
  using assms
  by (simp add: memm_free_def memm_unregister_allocation_def unlink_untracked libc_free_def)

theorem untracked_release_forwarded_witness:
  "(64 :: ptr) \<noteq> 0 \<and> 64 \<notin> ptr ` set (iterate (g_memm (start [] [])))
   \<and> fst (memm_unregister_allocation 64 ''main.c'' 12 (start [] [])) = False
   \<and> g_memm (memm_free 64 ''main.c'' 12 (start [] [])) = memm_zero
   \<and> libc_calls (memm_free 64 ''main.c'' 12 (start [] [])) = [Free 64]"
  using untracked_release_forwarded [of 64 "start [] []" "''main.c''" 12]
  by (simp add: start_def iterate_memm_zero)

text \<open>
  C10. Releasing the null address: unregister answers true, yet the registry and the five
  counters are unchanged (\<open>free_count\<close> is not incremented), and the allocator's release is
  called once, on the null address.
\<close>

theorem null_release:
  "fst (memm_unregister_allocation 0 fl ln w) = True
   \<and> g_memm (memm_free 0 fl ln w) = g_memm w
   \<and> libc_calls (memm_free 0 fl ln w) = libc_calls w @ [Free 0]"
  by (simp add: memm_free_def memm_unregister_allocation_def libc_free_def)

subsection \<open>Allocation\<close>

text \<open>
  C6. When the allocator's \<^verbatim>\<open>malloc\<close> fails, \<open>memm_malloc\<close> returns null, the registry and
  the counters are unchanged, and nothing is registered: the only call made to the
  allocator is the failed request itself.
\<close>

theorem failed_allocate:
  assumes "fst (libc_alloc (Malloc sz) w) = 0"
  shows "fst (memm_malloc sz fl ln w) = 0
       \<and> g_memm (snd (memm_malloc sz fl ln w)) = g_memm w
       \<and> libc_calls (snd (memm_malloc sz fl ln w)) = libc_calls w @ [Malloc sz]"
  using assms
  by (auto simp: memm_malloc_def libc_alloc_def split: list.splits prod.splits)

theorem failed_allocate_witness:
  "fst (libc_alloc (Malloc 100) (start [0, 4096] [])) = 0
   \<and> fst (memm_malloc 100 ''main.c'' 12 (start [0, 4096] [])) = 0
   \<and> g_memm (snd (memm_malloc 100 ''main.c'' 12 (start [0, 4096] []))) = memm_zero
   \<and> libc_calls (snd (memm_malloc 100 ''main.c'' 12 (start [0, 4096] []))) = [Malloc 100]"
  using failed_allocate [of 100 "start [0, 4096] []" "''main.c''" 12]
  by (simp add: start_def libc_alloc_def)

text \<open>
  C5, as amended. In a registry that holds no live record for the address \<open>malloc\<close> hands
  out, a successful \<open>memm_malloc\<close> followed at once by \<open>memm_free\<close> of the returned address
  leaves \<open>allocation_count - free_count\<close> as it was before the pair, and the address is not
  among the records the iteration produces.
\<close>

theorem allocate_release_roundtrip:
  assumes m: "memm_malloc sz fl ln w = (p, w1)"
      and p: "p \<noteq> 0"
      and fresh: "p \<notin> ptr ` set (iterate (g_memm w))"
  shows "allocation_count (g_memm (memm_free p fl2 ln2 w1)) - free_count (g_memm (memm_free p fl2 ln2 w1))
           = allocation_count (g_memm w) - free_count (g_memm w)
       \<and> p \<notin> ptr ` set (iterate (g_memm (memm_free p fl2 ln2 w1)))"
proof -
  let ?wa = "snd (libc_alloc (Malloc sz) w)"
  let ?h = "memm_hash_ptr p"
  let ?g = "g_memm w"
  from m p have w1: "w1 = memm_register_allocation p sz fl ln ?wa"
    by (auto simp: memm_malloc_def split: prod.splits if_splits)
  have ga: "g_memm ?wa = ?g" by (rule g_memm_libc_alloc)
  have none: "unlink p (hash_table ?g ?h) = None"
    using fresh by (rule unlink_untracked)
  from register_g [of p sz fl ln ?wa]
  show ?thesis
  proof
    assume "g_memm (memm_register_allocation p sz fl ln ?wa) = g_memm ?wa"
    then have "g_memm w1 = ?g" by (simp add: w1 ga)
    then have "g_memm (memm_free p fl2 ln2 w1) = ?g"
      using p none by (simp add: g_memm_memm_free memm_unregister_allocation_def)
    then show ?thesis using fresh by simp
  next
    assume "\<exists>now. p \<noteq> 0 \<and> g_memm (memm_register_allocation p sz fl ln ?wa) =
        (g_memm ?wa)\<lparr>hash_table := (hash_table (g_memm ?wa))(memm_hash_ptr p :=
             \<lparr>ptr = p, size' = sz, file' = fl, line = ln, timestamp = now\<rparr>
               # hash_table (g_memm ?wa) (memm_hash_ptr p)),
           total_allocated := total_allocated (g_memm ?wa) + sz,
           allocation_count := allocation_count (g_memm ?wa) + 1,
           peak_memory := max (peak_memory (g_memm ?wa))
              (total_allocated (g_memm ?wa) + sz - total_freed (g_memm ?wa))\<rparr>"
    then obtain now where g1: "g_memm w1 =
        ?g\<lparr>hash_table := (hash_table ?g)(?h :=
             \<lparr>ptr = p, size' = sz, file' = fl, line = ln, timestamp = now\<rparr> # hash_table ?g ?h),
           total_allocated := total_allocated ?g + sz,
           allocation_count := allocation_count ?g + 1,
           peak_memory := max (peak_memory ?g) (total_allocated ?g + sz - total_freed ?g)\<rparr>"
      by (auto simp: w1 ga)
    have g2: "g_memm (memm_free p fl2 ln2 w1) =
        (g_memm w1)\<lparr>hash_table := hash_table ?g,
           total_freed := total_freed ?g + sz, free_count := free_count ?g + 1\<rparr>"
      using p by (simp add: g_memm_memm_free memm_unregister_allocation_def g1 libc_free_def)
    have "iterate (g_memm (memm_free p fl2 ln2 w1)) = iterate ?g"
      by (rule iterate_cong) (simp add: g2)
    then show ?thesis using fresh by (simp add: g2 g1)
  qed
qed

theorem allocate_release_roundtrip_witness:
  "memm_malloc 16 ''main.c'' 12 (start [64, 4096] [1700000000])
     = (64, snd (memm_malloc 16 ''main.c'' 12 (start [64, 4096] [1700000000])))
   \<and> (64 :: ptr) \<noteq> 0
   \<and> 64 \<notin> ptr ` set (iterate (g_memm (start [64, 4096] [1700000000])))
   \<and> allocation_count (g_memm (memm_free 64 ''main.c'' 13
         (snd (memm_malloc 16 ''main.c'' 12 (start [64, 4096] [1700000000])))))
       - free_count (g_memm (memm_free 64 ''main.c'' 13
         (snd (memm_malloc 16 ''main.c'' 12 (start [64, 4096] [1700000000]))))) = 0
   \<and> 64 \<notin> ptr ` set (iterate (g_memm (memm_free 64 ''main.c'' 13
         (snd (memm_malloc 16 ''main.c'' 12 (start [64, 4096] [1700000000]))))))"
proof -
  have m: "memm_malloc 16 ''main.c'' 12 (start [64, 4096] [1700000000])
     = (64, snd (memm_malloc 16 ''main.c'' 12 (start [64, 4096] [1700000000])))"
    by (simp add: memm_malloc_def libc_alloc_def start_def)
  have fresh: "64 \<notin> ptr ` set (iterate (g_memm (start [64, 4096] [1700000000])))"
    by (simp add: start_def iterate_memm_zero)
  from allocate_release_roundtrip [OF m _ fresh, of "''main.c''" 13] m fresh
  show ?thesis by (simp add: start_def memm_zero_def)
qed

text \<open>
  The claim as stated, for every registry state, fails where the registry already holds a
  record for the address \<open>malloc\<close> hands out (register does no duplicate check). After one
  tracked allocation at address 64, a second allocation that is given 64 again and is
  released at once leaves the first record in the registry: 64 is still produced by the
  iteration. And when the storage for the second record cannot be obtained, the release
  removes the first record: \<open>allocation_count - free_count\<close> drops from 1 to 0.
\<close>

theorem allocate_release_roundtrip_counterexample:
  "fst (memm_malloc 16 ''main.c'' 20 (run [T_malloc 16 ''main.c'' 12] (start [64, 4096, 64, 4097] []))) = 64
   \<and> 64 \<in> ptr ` set (iterate (g_memm (memm_free 64 ''main.c'' 21
        (snd (memm_malloc 16 ''main.c'' 20
           (run [T_malloc 16 ''main.c'' 12] (start [64, 4096, 64, 4097] [])))))))
   \<and> fst (memm_malloc 16 ''main.c'' 20 (run [T_malloc 16 ''main.c'' 12] (start [64, 4096, 64, 0] []))) = 64
   \<and> allocation_count (g_memm (run [T_malloc 16 ''main.c'' 12] (start [64, 4096, 64, 0] [])))
       - free_count (g_memm (run [T_malloc 16 ''main.c'' 12] (start [64, 4096, 64, 0] []))) = 1
   \<and> allocation_count (g_memm (memm_free 64 ''main.c'' 21
        (snd (memm_malloc 16 ''main.c'' 20
           (run [T_malloc 16 ''main.c'' 12] (start [64, 4096, 64, 0] []))))))
       - free_count (g_memm (memm_free 64 ''main.c'' 21
        (snd (memm_malloc 16 ''main.c'' 20
           (run [T_malloc 16 ''main.c'' 12] (start [64, 4096, 64, 0] [])))))) = 0"
proof -
  let ?w = "memm_free 64 ''main.c'' 21
        (snd (memm_malloc 16 ''main.c'' 20
           (run [T_malloc 16 ''main.c'' 12] (start [64, 4096, 64, 4097] []))))"
  have h: "memm_hash_ptr 64 = 64"
    by (simp add: memm_hash_ptr_def MEMM_HASH_TABLE_SIZE_def)
  have "hash_table (g_memm ?w) (memm_hash_ptr 64)
          = [\<lparr>ptr = 64, size' = 16, file' = ''main.c'', line = 12, timestamp = - 1\<rparr>]"
    by (simp add: h memm_free_def memm_unregister_allocation_def memm_malloc_def
        memm_register_allocation_def libc_alloc_def libc_free_def libc_time_def start_def
        memm_zero_def Let_def)
  then have "\<lparr>ptr = 64, size' = 16, file' = ''main.c'', line = 12, timestamp = - 1\<rparr>
      \<in> set (iterate (g_memm ?w))"
    using bucket_subset_iterate [of "g_memm ?w" 64] by simp
  then have "ptr \<lparr>ptr = 64, size' = 16, file' = ''main.c'', line = 12, timestamp = - 1\<rparr>
      \<in> ptr ` set (iterate (g_memm ?w))"
    by (rule imageI)
  then have a: "64 \<in> ptr ` set (iterate (g_memm ?w))" by simp
  have b: "fst (memm_malloc 16 ''main.c'' 20 (run [T_malloc 16 ''main.c'' 12] (start [64, 4096, 64, 4097] []))) = 64"
    by (simp add: memm_malloc_def memm_register_allocation_def libc_alloc_def libc_time_def
        start_def Let_def)
  have c: "fst (memm_malloc 16 ''main.c'' 20 (run [T_malloc 16 ''main.c'' 12] (start [64, 4096, 64, 0] []))) = 64"
    by (simp add: memm_malloc_def memm_register_allocation_def libc_alloc_def libc_time_def
        start_def Let_def)
  have d: "allocation_count (g_memm (run [T_malloc 16 ''main.c'' 12] (start [64, 4096, 64, 0] [])))
       - free_count (g_memm (run [T_malloc 16 ''main.c'' 12] (start [64, 4096, 64, 0] []))) = 1"
    by (simp add: memm_malloc_def memm_register_allocation_def libc_alloc_def libc_time_def
        start_def memm_zero_def Let_def)
  have e: "allocation_count (g_memm (memm_free 64 ''main.c'' 21
        (snd (memm_malloc 16 ''main.c'' 20
           (run [T_malloc 16 ''main.c'' 12] (start [64, 4096, 64, 0] []))))))
       - free_count (g_memm (memm_free 64 ''main.c'' 21
        (snd (memm_malloc 16 ''main.c'' 20
           (run [T_malloc 16 ''main.c'' 12] (start [64, 4096, 64, 0] [])))))) = 0"
    by (simp add: h memm_free_def memm_unregister_allocation_def memm_malloc_def
        memm_register_allocation_def libc_alloc_def libc_free_def libc_time_def start_def
        memm_zero_def Let_def)
  from a b c d e show ?thesis by (simp only: simp_thms)
qed

subsection \<open>Peak memory\<close>

text \<open>
  C2, as amended. No tracked call ever decreases \<open>peak_memory\<close>, from any state. And along
  every sequence of tracked calls from the zeroed state, \<open>peak_memory\<close> is at least the
  current usage \<open>total_allocated - total_freed\<close> after every call, as long as the bytes of
  the live records have stayed below \<open>2 ^ 64\<close>, the range of \<^verbatim>\<open>size_t\<close>.
\<close>

theorem peak_memory_bounds:
  "peak_memory (g_memm w) \<le> peak_memory (g_memm (step c w))
   \<and> (live_fits cs (start hs ts) \<longrightarrow>
        (\<forall>k. memm_get_current_usage (g_memm (run (take k cs) (start hs ts)))
               \<le> peak_memory (g_memm (run (take k cs) (start hs ts)))))"
proof (intro conjI impI allI)
  show "peak_memory (g_memm w) \<le> peak_memory (g_memm (step c w))"
    by (rule peak_memory_step)
next
  fix k
  assume "live_fits cs (start hs ts)"
  then have "live_fits (take k cs) (start hs ts)" by (rule live_fits_take)
  moreover have "usage_inv (g_memm (start hs ts))"
    by (simp add: start_def usage_inv_zero)
  ultimately have "usage_inv (g_memm (run (take k cs) (start hs ts)))"
    by (simp add: usage_inv_run)
  then show "memm_get_current_usage (g_memm (run (take k cs) (start hs ts)))
               \<le> peak_memory (g_memm (run (take k cs) (start hs ts)))"
    by (simp add: usage_inv_def)
qed

theorem peak_memory_bounds_witness:
  "live_fits [T_malloc 10 ''main.c'' 5, T_malloc 20 ''main.c'' 6, T_malloc 30 ''main.c'' 7,
              T_free 128 ''main.c'' 8] (start [64, 4096, 128, 4097, 192, 4098] [])
   \<and> memm_get_current_usage (g_memm (run [T_malloc 10 ''main.c'' 5, T_malloc 20 ''main.c'' 6,
        T_malloc 30 ''main.c'' 7, T_free 128 ''main.c'' 8] (start [64, 4096, 128, 4097, 192, 4098] [])))
       \<le> peak_memory (g_memm (run [T_malloc 10 ''main.c'' 5, T_malloc 20 ''main.c'' 6,
        T_malloc 30 ''main.c'' 7, T_free 128 ''main.c'' 8] (start [64, 4096, 128, 4097, 192, 4098] [])))
   \<and> memm_get_current_usage (g_memm (run [T_malloc 10 ''main.c'' 5, T_malloc 20 ''main.c'' 6,
        T_malloc 30 ''main.c'' 7, T_free 128 ''main.c'' 8] (start [64, 4096, 128, 4097, 192, 4098] []))) = 40
   \<and> peak_memory (g_memm (run [T_malloc 10 ''main.c'' 5, T_malloc 20 ''main.c'' 6,
        T_malloc 30 ''main.c'' 7, T_free 128 ''main.c'' 8] (start [64, 4096, 128, 4097, 192, 4098] []))) = 60"
proof -
  let ?cs = "[T_malloc 10 ''main.c'' 5, T_malloc 20 ''main.c'' 6, T_malloc 30 ''main.c'' 7,
              T_free 128 ''main.c'' 8]"
  let ?w = "start [64, 4096, 128, 4097, 192, 4098] []"
  have fits: "live_fits ?cs ?w"
    by (simp add: run_unfold live_unfold)
  from peak_memory_bounds [of ?w "T_free 128 ''main.c'' 8" ?cs "[64, 4096, 128, 4097, 192, 4098]" "[]"] fits
  have "memm_get_current_usage (g_memm (run (take 4 ?cs) ?w)) \<le> peak_memory (g_memm (run (take 4 ?cs) ?w))"
    by blast
  then have le: "memm_get_current_usage (g_memm (run ?cs ?w)) \<le> peak_memory (g_memm (run ?cs ?w))"
    by simp
  have cu: "memm_get_current_usage (g_memm (run ?cs ?w)) = 40"
    by (simp add: run_unfold memm_get_current_usage_def)
  have pk: "peak_memory (g_memm (run ?cs ?w)) = 60"
    by (simp add: run_unfold)
  from fits le cu pk show ?thesis by (simp only: simp_thms)
qed

text \<open>
  The claim as stated, for every sequence, fails when the live bytes pass \<open>2 ^ 64\<close> and
  the usage wraps: three allocations of \<open>2 ^ 62\<close>, \<open>3 * 2 ^ 61\<close> and \<open>3 * 2 ^ 61\<close> bytes leave
  the usage at 0 and the peak at \<open>5 * 2 ^ 61\<close>; releasing the first raises the usage to
  \<open>6 * 2 ^ 61\<close>, above the peak. Nothing in memm.c bounds the bytes of the live records:
  a block released behind the tracker's back leaves its record live.
\<close>

theorem peak_memory_bounds_counterexample:
  "peak_memory (g_memm (run [T_malloc 0x4000000000000000 ''main.c'' 5,
        T_malloc 0x6000000000000000 ''main.c'' 6, T_malloc 0x6000000000000000 ''main.c'' 7,
        T_free 64 ''main.c'' 8] (start [64, 4096, 128, 4097, 192, 4098] [])))
     = 0xA000000000000000
   \<and> memm_get_current_usage (g_memm (run [T_malloc 0x4000000000000000 ''main.c'' 5,
        T_malloc 0x6000000000000000 ''main.c'' 6, T_malloc 0x6000000000000000 ''main.c'' 7,
        T_free 64 ''main.c'' 8] (start [64, 4096, 128, 4097, 192, 4098] [])))
     = 0xC000000000000000
   \<and> \<not> memm_get_current_usage (g_memm (run [T_malloc 0x4000000000000000 ''main.c'' 5,
        T_malloc 0x6000000000000000 ''main.c'' 6, T_malloc 0x6000000000000000 ''main.c'' 7,
        T_free 64 ''main.c'' 8] (start [64, 4096, 128, 4097, 192, 4098] [])))
       \<le> peak_memory (g_memm (run [T_malloc 0x4000000000000000 ''main.c'' 5,
        T_malloc 0x6000000000000000 ''main.c'' 6, T_malloc 0x6000000000000000 ''main.c'' 7,
        T_free 64 ''main.c'' 8] (start [64, 4096, 128, 4097, 192, 4098] [])))"
  by (simp add: run_unfold memm_get_current_usage_def)

subsection \<open>Totals\<close>

text \<open>
  C9, as amended. Along every sequence of tracked calls from the zeroed state,
  \<open>total_freed \<le> total_allocated\<close> holds after every call as long as the bytes registered
  by the sequence sum to less than \<open>2 ^ 64\<close>, so that \<open>total_allocated\<close> has not wrapped.
  In every case, wrapped or not, the subtraction that defines the current usage yields the
  bytes of the live records modulo \<open>2 ^ 64\<close>.
\<close>

theorem totals_ordered:
  "(registered_bytes cs (start hs ts) < 2 ^ 64 \<longrightarrow>
      (\<forall>k. total_freed (g_memm (run (take k cs) (start hs ts)))
             \<le> total_allocated (g_memm (run (take k cs) (start hs ts)))))
   \<and> memm_get_current_usage (g_memm (run cs (start hs ts)))
       = word_of_nat (live_bytes (g_memm (run cs (start hs ts))))"
proof (intro conjI impI allI)
  fix k
  assume "registered_bytes cs (start hs ts) < 2 ^ 64"
  with registered_bytes_take [of k cs "start hs ts"]
  have "registered_bytes (take k cs) (start hs ts) < 2 ^ 64" by simp
  then have "unat (total_allocated (g_memm (start hs ts))) + registered_bytes (take k cs) (start hs ts) < 2 ^ 64"
    by (simp add: start_def memm_zero_def)
  moreover have "totals_inv (g_memm (start hs ts))"
    by (simp add: start_def totals_inv_zero)
  ultimately have "totals_inv (g_memm (run (take k cs) (start hs ts)))"
    by (simp add: totals_inv_run)
  then show "total_freed (g_memm (run (take k cs) (start hs ts)))
             \<le> total_allocated (g_memm (run (take k cs) (start hs ts)))"
    by (rule totals_inv_le)
next
  show "memm_get_current_usage (g_memm (run cs (start hs ts)))
       = word_of_nat (live_bytes (g_memm (run cs (start hs ts))))"
    by (simp add: memm_get_current_usage_def usage_mod_run)
qed

theorem totals_ordered_witness:
  "registered_bytes [T_malloc 10 ''main.c'' 5, T_malloc 20 ''main.c'' 6, T_malloc 30 ''main.c'' 7,
              T_free 128 ''main.c'' 8] (start [64, 4096, 128, 4097, 192, 4098] []) = 60
   \<and> total_freed (g_memm (run [T_malloc 10 ''main.c'' 5, T_malloc 20 ''main.c'' 6,
        T_malloc 30 ''main.c'' 7, T_free 128 ''main.c'' 8] (start [64, 4096, 128, 4097, 192, 4098] [])))
       \<le> total_allocated (g_memm (run [T_malloc 10 ''main.c'' 5, T_malloc 20 ''main.c'' 6,
        T_malloc 30 ''main.c'' 7, T_free 128 ''main.c'' 8] (start [64, 4096, 128, 4097, 192, 4098] [])))
   \<and> total_freed (g_memm (run [T_malloc 10 ''main.c'' 5, T_malloc 20 ''main.c'' 6,
        T_malloc 30 ''main.c'' 7, T_free 128 ''main.c'' 8] (start [64, 4096, 128, 4097, 192, 4098] []))) = 20
   \<and> total_allocated (g_memm (run [T_malloc 10 ''main.c'' 5, T_malloc 20 ''main.c'' 6,
        T_malloc 30 ''main.c'' 7, T_free 128 ''main.c'' 8] (start [64, 4096, 128, 4097, 192, 4098] []))) = 60"
proof -
  let ?cs = "[T_malloc 10 ''main.c'' 5, T_malloc 20 ''main.c'' 6, T_malloc 30 ''main.c'' 7,
              T_free 128 ''main.c'' 8]"
  let ?w = "start [64, 4096, 128, 4097, 192, 4098] []"
  have reg: "registered_bytes ?cs ?w = 60"
    by (simp add: run_unfold)
  then have "registered_bytes ?cs ?w < 2 ^ 64" by simp
  with totals_ordered [of ?cs "[64, 4096, 128, 4097, 192, 4098]" "[]"]
  have "total_freed (g_memm (run (take 4 ?cs) ?w)) \<le> total_allocated (g_memm (run (take 4 ?cs) ?w))"
    by blast
  then have le: "total_freed (g_memm (run ?cs ?w)) \<le> total_allocated (g_memm (run ?cs ?w))"
    by simp
  have tf: "total_freed (g_memm (run ?cs ?w)) = 20"
    by (simp add: run_unfold)
  have ta: "total_allocated (g_memm (run ?cs ?w)) = 60"
    by (simp add: run_unfold)
  from reg le tf ta show ?thesis by (simp only: simp_thms)
qed

text \<open>
  The claim as stated, for every sequence, fails once \<open>total_allocated\<close> wraps: allocating
  and releasing \<open>0x6000000000000000\<close> bytes twice and allocating them a third time leaves
  \<open>total_allocated\<close> at \<open>0x2000000000000000\<close> (three times the size, modulo \<open>2 ^ 64\<close>), below
  \<open>total_freed = 0xC000000000000000\<close>. The totals are cumulative over the life of the
  process, so any long enough run of smaller allocations and releases wraps them the same
  way.
\<close>

theorem totals_ordered_counterexample:
  "total_allocated (g_memm (run [T_malloc 0x6000000000000000 ''main.c'' 5, T_free 64 ''main.c'' 6,
        T_malloc 0x6000000000000000 ''main.c'' 5, T_free 64 ''main.c'' 6,
        T_malloc 0x6000000000000000 ''main.c'' 5] (start [64, 4096, 64, 4096, 64, 4096] [])))
     = 0x2000000000000000
   \<and> total_freed (g_memm (run [T_malloc 0x6000000000000000 ''main.c'' 5, T_free 64 ''main.c'' 6,
        T_malloc 0x6000000000000000 ''main.c'' 5, T_free 64 ''main.c'' 6,
        T_malloc 0x6000000000000000 ''main.c'' 5] (start [64, 4096, 64, 4096, 64, 4096] [])))
     = 0xC000000000000000
   \<and> \<not> total_freed (g_memm (run [T_malloc 0x6000000000000000 ''main.c'' 5, T_free 64 ''main.c'' 6,
        T_malloc 0x6000000000000000 ''main.c'' 5, T_free 64 ''main.c'' 6,
        T_malloc 0x6000000000000000 ''main.c'' 5] (start [64, 4096, 64, 4096, 64, 4096] [])))
       \<le> total_allocated (g_memm (run [T_malloc 0x6000000000000000 ''main.c'' 5, T_free 64 ''main.c'' 6,
        T_malloc 0x6000000000000000 ''main.c'' 5, T_free 64 ''main.c'' 6,
        T_malloc 0x6000000000000000 ''main.c'' 5] (start [64, 4096, 64, 4096, 64, 4096] [])))"
  by (simp add: run_unfold)

subsection \<open>Buckets\<close>

text \<open>
  C8. The hash of an address is its numeric value masked with \<open>N - 1\<close>, which is the value
  modulo the table size \<open>N\<close>, a bucket index. Every live record with address \<open>a\<close> is in
  bucket \<open>hash a\<close>: this holds after every sequence of tracked calls from the zeroed state,
  and register and unregister each keep it. Register and unregister leave every bucket
  other than \<open>hash p\<close> as it was, register puts the new record at the head of bucket
  \<open>hash p\<close>, and unregister finds the address exactly when bucket \<open>hash p\<close> holds a record
  of it.
\<close>

theorem bucket_invariant:
  "memm_hash_ptr a = unat (a AND 2047)
   \<and> memm_hash_ptr a = unat a mod MEMM_HASH_TABLE_SIZE
   \<and> memm_hash_ptr a < MEMM_HASH_TABLE_SIZE
   \<and> bucket_inv (g_memm (run cs (start hs ts)))
   \<and> (bucket_inv (g_memm w) \<longrightarrow>
         bucket_inv (g_memm (memm_register_allocation p sz fl ln w))
       \<and> bucket_inv (g_memm (snd (memm_unregister_allocation p fl ln w))))
   \<and> (i \<noteq> memm_hash_ptr p \<longrightarrow>
         hash_table (g_memm (memm_register_allocation p sz fl ln w)) i = hash_table (g_memm w) i
       \<and> hash_table (g_memm (snd (memm_unregister_allocation p fl ln w))) i = hash_table (g_memm w) i)
   \<and> (g_memm (memm_register_allocation p sz fl ln w) \<noteq> g_memm w \<longrightarrow>
         (\<exists>r. ptr r = p \<and> size' r = sz \<and>
            hash_table (g_memm (memm_register_allocation p sz fl ln w)) (memm_hash_ptr p)
              = r # hash_table (g_memm w) (memm_hash_ptr p)))
   \<and> (p \<noteq> 0 \<longrightarrow>
         fst (memm_unregister_allocation p fl ln w)
           = (p \<in> ptr ` set (hash_table (g_memm w) (memm_hash_ptr p))))"
proof (intro conjI impI)
  show "memm_hash_ptr a = unat (a AND 2047)"
    by (simp add: memm_hash_ptr_def MEMM_HASH_TABLE_SIZE_def)
  show "memm_hash_ptr a = unat a mod MEMM_HASH_TABLE_SIZE"
    by (rule memm_hash_ptr_mod)
  show "memm_hash_ptr a < MEMM_HASH_TABLE_SIZE"
    by (rule memm_hash_ptr_less)
  have "bucket_inv (g_memm (start hs ts))"
    by (simp add: start_def bucket_inv_zero)
  with bucket_inv_register bucket_inv_unregister
  show "bucket_inv (g_memm (run cs (start hs ts)))"
    by (rule run_invariant [where P = bucket_inv])
next
  assume "bucket_inv (g_memm w)"
  then show "bucket_inv (g_memm (memm_register_allocation p sz fl ln w))"
    by (rule bucket_inv_register)
next
  assume "bucket_inv (g_memm w)"
  then show "bucket_inv (g_memm (snd (memm_unregister_allocation p fl ln w)))"
    by (rule bucket_inv_unregister)
next
  assume "i \<noteq> memm_hash_ptr p"
  then show "hash_table (g_memm (memm_register_allocation p sz fl ln w)) i = hash_table (g_memm w) i"
    by (rule register_other_bucket)
next
  assume "i \<noteq> memm_hash_ptr p"
  then show "hash_table (g_memm (snd (memm_unregister_allocation p fl ln w))) i = hash_table (g_memm w) i"
    by (rule unregister_other_bucket)
next
  assume "g_memm (memm_register_allocation p sz fl ln w) \<noteq> g_memm w"
  with register_g [of p sz fl ln w]
  show "\<exists>r. ptr r = p \<and> size' r = sz \<and>
            hash_table (g_memm (memm_register_allocation p sz fl ln w)) (memm_hash_ptr p)
              = r # hash_table (g_memm w) (memm_hash_ptr p)"
    by auto
next
  assume "p \<noteq> 0"
  then show "fst (memm_unregister_allocation p fl ln w)
           = (p \<in> ptr ` set (hash_table (g_memm w) (memm_hash_ptr p)))"
    by (rule unregister_found)
qed

theorem bucket_invariant_witness:
  "memm_hash_ptr 4100 = 4
   \<and> bucket_inv (g_memm (run [T_malloc 16 ''main.c'' 5] (start [4100, 4096] [])))
   \<and> bucket_inv (g_memm (start [4096] []))
   \<and> bucket_inv (g_memm (memm_register_allocation 4100 16 ''main.c'' 5 (start [4096] [])))
   \<and> bucket_inv (g_memm (snd (memm_unregister_allocation 4100 ''main.c'' 6 (start [4096] []))))
   \<and> (5::nat) \<noteq> memm_hash_ptr 4100
   \<and> hash_table (g_memm (memm_register_allocation 4100 16 ''main.c'' 5 (start [4096] []))) 5 = []
   \<and> g_memm (memm_register_allocation 4100 16 ''main.c'' 5 (start [4096] [])) \<noteq> g_memm (start [4096] [])
   \<and> hash_table (g_memm (memm_register_allocation 4100 16 ''main.c'' 5 (start [4096] []))) 4
        = [\<lparr>ptr = 4100, size' = 16, file' = ''main.c'', line = 5, timestamp = - 1\<rparr>]
   \<and> (4100 :: ptr) \<noteq> 0
   \<and> fst (memm_unregister_allocation 4100 ''main.c'' 6 (start [4096] [])) = False"
proof -
  let ?w = "start [4096] []"
  have h: "memm_hash_ptr 4100 = 4"
    by (simp add: memm_hash_ptr_def MEMM_HASH_TABLE_SIZE_def)
  have z: "bucket_inv (g_memm ?w)"
    by (simp add: start_def bucket_inv_zero)
  have ne: "g_memm (memm_register_allocation 4100 16 ''main.c'' 5 ?w) \<noteq> g_memm ?w"
  proof
    assume "g_memm (memm_register_allocation 4100 16 ''main.c'' 5 ?w) = g_memm ?w"
    then have "allocation_count (g_memm (memm_register_allocation 4100 16 ''main.c'' 5 ?w))
                 = allocation_count (g_memm ?w)"
      by simp
    then show False by (simp add: run_unfold)
  qed
  have hd: "hash_table (g_memm (memm_register_allocation 4100 16 ''main.c'' 5 ?w)) 4
        = [\<lparr>ptr = 4100, size' = 16, file' = ''main.c'', line = 5, timestamp = - 1\<rparr>]"
    by (simp add: run_unfold)
  from bucket_invariant [of 4100 "[T_malloc 16 ''main.c'' 5]" "[4100, 4096]" "[]" ?w 4100 16
      "''main.c''" 5 5] z ne h hd
  show ?thesis
    by (simp add: start_def memm_zero_def memm_unregister_allocation_def)
qed

subsection \<open>Resize\<close>

lemma sole_record_gone:
  assumes u: "unlink p (hash_table g (memm_hash_ptr p)) = Some (r, rest)"
      and g': "hash_table g' = (hash_table g)(memm_hash_ptr p := rest)"
      and one: "length (filter (\<lambda>a. ptr a = p) (iterate g)) = 1"
  shows "p \<notin> ptr ` set (iterate g')"
proof
  assume "p \<in> ptr ` set (iterate g')"
  then obtain a where a: "a \<in> set (iterate g')" "ptr a = p" by auto
  from u have r: "ptr r = p" by (simp add: unlink_Some_mset)
  from mset_iterate_unlink [OF u g']
  have "mset (filter (\<lambda>a. ptr a = p) (iterate g))
          = filter_mset (\<lambda>a. ptr a = p) (add_mset r (mset (iterate g')))"
    by (simp only: mset_filter)
  with r have "mset (filter (\<lambda>a. ptr a = p) (iterate g))
          = add_mset r (mset (filter (\<lambda>a. ptr a = p) (iterate g')))"
    by simp
  then have "size (mset (filter (\<lambda>a. ptr a = p) (iterate g)))
          = size (add_mset r (mset (filter (\<lambda>a. ptr a = p) (iterate g'))))"
    by (simp only:)
  then have "length (filter (\<lambda>a. ptr a = p) (iterate g))
          = Suc (length (filter (\<lambda>a. ptr a = p) (iterate g')))"
    by (simp only: size_mset size_add_mset)
  with one have "filter (\<lambda>a. ptr a = p) (iterate g') = []" by simp
  with a show False by (simp add: filter_empty_conv)
qed

lemma length_filter_sum_list:
  "length (filter P xs) = sum_list (map (\<lambda>x. if P x then 1 else 0) xs)"
  by (induction xs) simp_all

text \<open>
  C3, as amended. Let \<open>p\<close> be a non-null tracked address and \<open>r\<close> the record that the walk
  of its bucket finds first, of size \<open>size' r\<close>. \<open>memm_realloc p sz\<close> first unregisters
  \<open>r\<close> (releasing its node), then asks the allocator to resize.
  \<^item> When the allocator answers with an address \<open>q\<close> and the storage for the new record is
    obtained, \<open>q\<close> is returned and registered with size \<open>sz\<close> at the head of its bucket:
    \<open>total_freed\<close> grows by exactly \<open>size' r\<close>, \<open>total_allocated\<close> by exactly \<open>sz\<close>, and
    \<open>free_count\<close> and \<open>allocation_count\<close> by one each.
  \<^item> When the allocator answers with \<open>q\<close> but the storage for the new record is not
    obtained, \<open>q\<close> is returned untracked: \<open>total_allocated\<close> and \<open>allocation_count\<close> stay.
  \<^item> When the allocator fails, null is returned, nothing is registered, and the registry
    is the old one without \<open>r\<close>; if \<open>r\<close> was the only record of \<open>p\<close>, the registry holds
    no entry for \<open>p\<close>.
\<close>

theorem resize_tracked:
  assumes p: "p \<noteq> 0"
      and u: "unlink p (hash_table (g_memm w) (memm_hash_ptr p)) = Some (r, rest)"
      and res: "memm_realloc p sz fl ln w = (new_ptr, w')"
  shows "total_freed (g_memm w') = total_freed (g_memm w) + size' r
       \<and> free_count (g_memm w') = free_count (g_memm w) + 1
       \<and> (heap_script w = q # n # hs \<and> q \<noteq> 0 \<and> n \<noteq> 0 \<longrightarrow>
            new_ptr = q
          \<and> total_allocated (g_memm w') = total_allocated (g_memm w) + sz
          \<and> allocation_count (g_memm w') = allocation_count (g_memm w) + 1
          \<and> (\<exists>now. hash_table (g_memm w') =
                ((hash_table (g_memm w))(memm_hash_ptr p := rest))(memm_hash_ptr q :=
                   \<lparr>ptr = q, size' = sz, file' = fl, line = ln, timestamp = now\<rparr>
                     # ((hash_table (g_memm w))(memm_hash_ptr p := rest)) (memm_hash_ptr q)))
          \<and> libc_calls w' = libc_calls w @ [Free_node, Realloc p sz, Malloc sizeof_memm_allocation_t])
       \<and> ((heap_script w = [q] \<or> heap_script w = q # 0 # hs) \<and> q \<noteq> 0 \<longrightarrow>
            new_ptr = q
          \<and> total_allocated (g_memm w') = total_allocated (g_memm w)
          \<and> allocation_count (g_memm w') = allocation_count (g_memm w)
          \<and> hash_table (g_memm w') = (hash_table (g_memm w))(memm_hash_ptr p := rest))
       \<and> (heap_script w = [] \<or> heap_script w = 0 # hs \<longrightarrow>
            new_ptr = 0
          \<and> g_memm w' = (g_memm w)\<lparr>hash_table := (hash_table (g_memm w))(memm_hash_ptr p := rest),
                 total_freed := total_freed (g_memm w) + size' r,
                 free_count := free_count (g_memm w) + 1\<rparr>
          \<and> libc_calls w' = libc_calls w @ [Free_node, Realloc p sz]
          \<and> (length (filter (\<lambda>a. ptr a = p) (iterate (g_memm w))) = 1
                \<longrightarrow> p \<notin> ptr ` set (iterate (g_memm w'))))"
proof -
  let ?g = "g_memm w"
  let ?g1 = "?g\<lparr>hash_table := (hash_table ?g)(memm_hash_ptr p := rest),
                 total_freed := total_freed ?g + size' r,
                 free_count := free_count ?g + 1\<rparr>"
  let ?w1 = "w\<lparr>g_memm := ?g1, libc_calls := libc_calls w @ [Free_node]\<rparr>"
  have un: "snd (memm_unregister_allocation p fl ln w) = ?w1"
    using p u by (simp add: memm_unregister_allocation_def libc_free_def Let_def)
  have r1: "memm_realloc p sz fl ln w =
      (let (new_ptr, w2) = libc_alloc (Realloc p sz) ?w1
       in if new_ptr \<noteq> 0 then (new_ptr, memm_register_allocation new_ptr sz fl ln w2)
          else (new_ptr, w2))"
    using p by (simp add: memm_realloc_def un)
  have frees: "total_freed (g_memm w') = total_freed ?g + size' r
       \<and> free_count (g_memm w') = free_count ?g + 1"
    using res unfolding r1 memm_register_allocation_def peak_update Let_def
    by (auto simp: libc_alloc_def libc_time_def split: list.splits prod.splits if_splits)
  have ok: "new_ptr = q
          \<and> total_allocated (g_memm w') = total_allocated ?g + sz
          \<and> allocation_count (g_memm w') = allocation_count ?g + 1
          \<and> (\<exists>now. hash_table (g_memm w') =
                ((hash_table ?g)(memm_hash_ptr p := rest))(memm_hash_ptr q :=
                   \<lparr>ptr = q, size' = sz, file' = fl, line = ln, timestamp = now\<rparr>
                     # ((hash_table ?g)(memm_hash_ptr p := rest)) (memm_hash_ptr q)))
          \<and> libc_calls w' = libc_calls w @ [Free_node, Realloc p sz, Malloc sizeof_memm_allocation_t]"
    if "heap_script w = q # n # hs \<and> q \<noteq> 0 \<and> n \<noteq> 0"
    using res that unfolding r1 memm_register_allocation_def peak_update Let_def
    by (auto simp: libc_alloc_def libc_time_def split: list.splits prod.splits)
  have untracked: "new_ptr = q
          \<and> total_allocated (g_memm w') = total_allocated ?g
          \<and> allocation_count (g_memm w') = allocation_count ?g
          \<and> hash_table (g_memm w') = (hash_table ?g)(memm_hash_ptr p := rest)"
    if "(heap_script w = [q] \<or> heap_script w = q # 0 # hs) \<and> q \<noteq> 0"
    using res that unfolding r1 memm_register_allocation_def peak_update Let_def
    by (auto simp: libc_alloc_def libc_time_def split: list.splits prod.splits)
  have failed: "new_ptr = 0 \<and> g_memm w' = ?g1
          \<and> libc_calls w' = libc_calls w @ [Free_node, Realloc p sz]"
    if "heap_script w = [] \<or> heap_script w = 0 # hs"
    using res that unfolding r1 Let_def
    by (auto simp: libc_alloc_def split: list.splits prod.splits)
  have gone: "p \<notin> ptr ` set (iterate (g_memm w'))"
    if f: "heap_script w = [] \<or> heap_script w = 0 # hs"
      and one: "length (filter (\<lambda>a. ptr a = p) (iterate ?g)) = 1"
  proof -
    from failed [OF f] have "hash_table (g_memm w') = (hash_table ?g)(memm_hash_ptr p := rest)"
      by simp
    with u show ?thesis using one by (rule sole_record_gone)
  qed
  from frees ok untracked failed gone show ?thesis by blast
qed

theorem resize_tracked_witness:
  "fst (memm_realloc 64 10 ''main.c'' 6
          (run [T_malloc 100 ''main.c'' 5] (start [64, 4096, 72, 4097] []))) = 72
   \<and> total_freed (g_memm (snd (memm_realloc 64 10 ''main.c'' 6
          (run [T_malloc 100 ''main.c'' 5] (start [64, 4096, 72, 4097] [])))))
       = total_freed (g_memm (run [T_malloc 100 ''main.c'' 5] (start [64, 4096, 72, 4097] []))) + 100
   \<and> total_allocated (g_memm (snd (memm_realloc 64 10 ''main.c'' 6
          (run [T_malloc 100 ''main.c'' 5] (start [64, 4096, 72, 4097] [])))))
       = total_allocated (g_memm (run [T_malloc 100 ''main.c'' 5] (start [64, 4096, 72, 4097] []))) + 10
   \<and> fst (memm_realloc 64 10 ''main.c'' 6
          (run [T_malloc 100 ''main.c'' 5] (start [64, 4096, 0] []))) = 0
   \<and> 64 \<notin> ptr ` set (iterate (g_memm (snd (memm_realloc 64 10 ''main.c'' 6
          (run [T_malloc 100 ''main.c'' 5] (start [64, 4096, 0] []))))))"
proof -
  let ?r = "\<lparr>ptr = 64, size' = 100, file' = ''main.c'', line = 5, timestamp = - 1\<rparr>"
  let ?ok = "run [T_malloc 100 ''main.c'' 5] (start [64, 4096, 72, 4097] [])"
  let ?bad = "run [T_malloc 100 ''main.c'' 5] (start [64, 4096, 0] [])"
  have p: "(64 :: ptr) \<noteq> 0" by simp
  have u_ok: "unlink 64 (hash_table (g_memm ?ok) (memm_hash_ptr 64)) = Some (?r, [])"
    by (simp add: run_unfold)
  have u_bad: "unlink 64 (hash_table (g_memm ?bad) (memm_hash_ptr 64)) = Some (?r, [])"
    by (simp add: run_unfold)
  have s_ok: "heap_script ?ok = 72 # 4097 # [] \<and> (72 :: ptr) \<noteq> 0 \<and> (4097 :: ptr) \<noteq> 0"
    by (simp add: run_unfold)
  have s_bad: "heap_script ?bad = [] \<or> heap_script ?bad = 0 # []"
    by (simp add: run_unfold)
  have "sum_list (map (\<lambda>a. if ptr a = 64 then 1 else 0) (iterate (g_memm ?bad))) = (1::nat)"
    by (simp add: run_unfold iterate_def table_bytes_upd table_bytes_empty)
  then have one: "length (filter (\<lambda>a. ptr a = 64) (iterate (g_memm ?bad))) = 1"
    by (simp only: length_filter_sum_list)
  from resize_tracked [OF p u_ok prod.collapse [symmetric], of 10 "''main.c''" 6 72 4097 "[]"] s_ok
  have a: "fst (memm_realloc 64 10 ''main.c'' 6 ?ok) = 72
     \<and> total_freed (g_memm (snd (memm_realloc 64 10 ''main.c'' 6 ?ok))) = total_freed (g_memm ?ok) + 100
     \<and> total_allocated (g_memm (snd (memm_realloc 64 10 ''main.c'' 6 ?ok))) = total_allocated (g_memm ?ok) + 10"
    by simp
  from resize_tracked [OF p u_bad prod.collapse [symmetric], of 10 "''main.c''" 6 _ _ "[]"] s_bad one
  have b: "fst (memm_realloc 64 10 ''main.c'' 6 ?bad) = 0
     \<and> 64 \<notin> ptr ` set (iterate (g_memm (snd (memm_realloc 64 10 ''main.c'' 6 ?bad))))"
    by blast
  from a b show ?thesis by (simp only: simp_thms)
qed

text \<open>
  The claim as stated fails in two places. When the allocator resizes the block to
  address 72 but the storage for the new record cannot be obtained, \<open>total_allocated\<close> does
  not grow by the new size: it stays at 100. And when address 64 has two records (a
  second allocation was given the same address) and the allocator fails, the registry
  still holds an entry for 64 afterwards.
\<close>

theorem resize_tracked_counterexample:
  "unlink 64 (hash_table (g_memm (run [T_malloc 100 ''main.c'' 5] (start [64, 4096, 72, 0] [])))
       (memm_hash_ptr 64))
     = Some (\<lparr>ptr = 64, size' = 100, file' = ''main.c'', line = 5, timestamp = - 1\<rparr>, [])
   \<and> fst (memm_realloc 64 10 ''main.c'' 6
          (run [T_malloc 100 ''main.c'' 5] (start [64, 4096, 72, 0] []))) = 72
   \<and> total_allocated (g_memm (run [T_malloc 100 ''main.c'' 5] (start [64, 4096, 72, 0] []))) = 100
   \<and> total_allocated (g_memm (snd (memm_realloc 64 10 ''main.c'' 6
          (run [T_malloc 100 ''main.c'' 5] (start [64, 4096, 72, 0] []))))) = 100
   \<and> fst (memm_realloc 64 10 ''main.c'' 6
          (run [T_malloc 100 ''main.c'' 5, T_malloc 50 ''main.c'' 7] (start [64, 4096, 64, 4097, 0] []))) = 0
   \<and> 64 \<in> ptr ` set (iterate (g_memm (snd (memm_realloc 64 10 ''main.c'' 6
          (run [T_malloc 100 ''main.c'' 5, T_malloc 50 ''main.c'' 7] (start [64, 4096, 64, 4097, 0] []))))))"
proof -
  let ?r = "\<lparr>ptr = 64, size' = 100, file' = ''main.c'', line = 5, timestamp = - 1\<rparr>"
  let ?w = "run [T_malloc 100 ''main.c'' 5] (start [64, 4096, 72, 0] [])"
  let ?s = "run [T_malloc 100 ''main.c'' 5, T_malloc 50 ''main.c'' 7] (start [64, 4096, 64, 4097, 0] [])"
  have a: "unlink 64 (hash_table (g_memm ?w) (memm_hash_ptr 64)) = Some (?r, [])"
    by (simp add: run_unfold)
  have b: "fst (memm_realloc 64 10 ''main.c'' 6 ?w) = 72"
    by (simp add: run_unfold)
  have c: "total_allocated (g_memm ?w) = 100"
    by (simp add: run_unfold)
  have d: "total_allocated (g_memm (snd (memm_realloc 64 10 ''main.c'' 6 ?w))) = 100"
    by (simp add: run_unfold)
  have e: "fst (memm_realloc 64 10 ''main.c'' 6 ?s) = 0"
    by (simp add: run_unfold)
  have h: "memm_hash_ptr 64 = 64"
    by (simp add: memm_hash_ptr_def MEMM_HASH_TABLE_SIZE_def)
  have "hash_table (g_memm (snd (memm_realloc 64 10 ''main.c'' 6 ?s))) (memm_hash_ptr 64) = [?r]"
    unfolding h by (simp add: run_unfold)
  then have "?r \<in> set (iterate (g_memm (snd (memm_realloc 64 10 ''main.c'' 6 ?s))))"
    using bucket_subset_iterate [of "g_memm (snd (memm_realloc 64 10 ''main.c'' 6 ?s))" 64] by simp
  then have "ptr ?r \<in> ptr ` set (iterate (g_memm (snd (memm_realloc 64 10 ''main.c'' 6 ?s))))"
    by (rule imageI)
  then have f: "64 \<in> ptr ` set (iterate (g_memm (snd (memm_realloc 64 10 ''main.c'' 6 ?s))))"
    by simp
  from a b c d e f show ?thesis by (simp only: simp_thms)
qed

subsection \<open>The C int\<close>

lemma c_int_unat: "n \<le> INT_MAX \<Longrightarrow> unat (word_of_nat n :: c_int) = n"
  by (simp add: unat_of_nat INT_MAX_def)

lemma c_int_sint: "n \<le> INT_MAX \<Longrightarrow> sint (word_of_nat n :: c_int) = int n"
  by (simp add: signed_of_nat signed_take_bit_int_eq_self INT_MAX_def)

lemma c_int_unat_le: "unat (word_of_nat k :: c_int) \<le> k"
  by (simp add: unat_of_nat)

lemma sint_nonneg_unat:
  assumes "\<not> sint (w :: c_int) < 0"
  shows "sint w = int (unat w)" and "unat w \<le> INT_MAX"
proof -
  have b: "0 \<le> uint w" "uint w < 4294967296"
    using uint_lt2p [of w] by simp_all
  have s: "sint w = (uint w + 2147483648) mod 4294967296 - 2147483648"
    using int_word_sint [of "uint w", where 'a = 32] by simp
  have small: "uint w < 2147483648"
  proof (rule ccontr)
    assume "\<not> uint w < 2147483648"
    define k where "k = uint w - 2147483648"
    with b \<open>\<not> uint w < 2147483648\<close> have k: "0 \<le> k" "k < 4294967296"
      and e: "uint w + 2147483648 = k + 4294967296"
      by simp_all
    have "(k + 4294967296) mod 4294967296 = k mod 4294967296" by simp
    also from k have "\<dots> = k" by simp
    finally have "(uint w + 2147483648) mod 4294967296 = k" by (simp only: e)
    with s b have "sint w < 0" by (simp add: k_def)
    with assms show False by simp
  qed
  with b have "(uint w + 2147483648) mod 4294967296 = uint w + 2147483648"
    by (simp add: mod_pos_pos_trivial)
  with s have "sint w = uint w" by simp
  then show u: "sint w = int (unat w)" by simp
  have "uint w = int (unat w)" by simp
  with small have "int (unat w) < 2147483648" by (simp only:)
  then show "unat w \<le> INT_MAX"
    unfolding INT_MAX_def by arith
qed

text \<open>
  The \<^verbatim>\<open>written\<close> that the loop adds to the cursor and takes from \<open>remaining\<close>, after
  the test for a negative result and the clamp, is not negative: as a signed \<^verbatim>\<open>int\<close> and
  as a \<^verbatim>\<open>size_t\<close> it is the same number.
\<close>

lemma written_in_range:
  assumes "\<not> sint (w :: c_int) < 0"
  shows "sint (if unat w \<ge> n then word_of_nat (n - 1) else w)
           = int (unat (if unat w \<ge> n then word_of_nat (n - 1) else w))"
proof (cases "unat w \<ge> n")
  case True
  with sint_nonneg_unat(2) [OF assms] have "n - 1 \<le> INT_MAX" by arith
  then have "sint (word_of_nat (n - 1) :: c_int) = int (n - 1)"
    and "unat (word_of_nat (n - 1) :: c_int) = n - 1"
    by (rule c_int_sint, rule c_int_unat)
  with True show ?thesis by (simp only: if_True)
next
  case False
  with sint_nonneg_unat(1) [OF assms] show ?thesis by (simp only: if_False)
qed

subsection \<open>What snprintf stores\<close>

lemma snprintf_returns:
  "length s \<le> INT_MAX \<Longrightarrow> snd (snprintf buf at n s) = word_of_nat (length s)"
  by (simp add: snprintf_def)

lemma store_length:
  "at + length bytes \<le> length buf \<Longrightarrow> length (store buf at bytes) = length buf"
  by (simp add: store_def)

lemma store_take:
  "at + length bytes \<le> length buf \<Longrightarrow> take (at + length bytes) (store buf at bytes) = take at buf @ bytes"
  by (simp add: store_def)

lemma snprintf_length:
  assumes "1 \<le> n" and "at + n \<le> length buf"
  shows "length (fst (snprintf buf at n s)) = length buf"
proof -
  from assms have "at + length (take (n - 1) s @ [CHR 0x00]) \<le> length buf" by simp
  then have "length (store buf at (take (n - 1) s @ [CHR 0x00])) = length buf"
    by (rule store_length)
  with assms show ?thesis by (simp add: snprintf_def)
qed

lemma snprintf_take:
  assumes "1 \<le> n" and "at + n \<le> length buf"
  shows "take (at + min (length s) (n - 1) + 1) (fst (snprintf buf at n s))
           = take at buf @ take (n - 1) s @ [CHR 0x00]"
proof -
  from assms have "at + length (take (n - 1) s @ [CHR 0x00]) \<le> length buf" by simp
  then have "take (at + length (take (n - 1) s @ [CHR 0x00])) (store buf at (take (n - 1) s @ [CHR 0x00]))
               = take at buf @ take (n - 1) s @ [CHR 0x00]"
    by (rule store_take)
  moreover have "at + length (take (n - 1) s @ [CHR 0x00]) = at + min (length s) (n - 1) + 1"
    by simp
  ultimately show ?thesis using assms by (simp add: snprintf_def)
qed

text \<open>A buffer that starts with some text and a zero within its capacity is terminated.\<close>

lemma zero_within:
  assumes "take (m + 1) buf = s @ [CHR 0x00]" and "m + 1 \<le> cap"
  shows "CHR 0x00 \<in> set (take cap buf)"
proof -
  have "CHR 0x00 \<in> set (take (m + 1) buf)" by (simp only: assms(1)) simp
  with set_take_subset_set_take [OF assms(2), of buf] show ?thesis by blast
qed

lemma snprintf_zero:
  assumes "1 \<le> n" and "at + n \<le> length buf"
  shows "CHR 0x00 \<in> set (take (at + n) (fst (snprintf buf at n s)))"
proof -
  from assms have "take (at + min (length s) (n - 1) + 1) (fst (snprintf buf at n s))
      = (take at buf @ take (n - 1) s) @ [CHR 0x00]"
    by (simp only: snprintf_take append_assoc)
  moreover from assms(1) have "at + min (length s) (n - 1) + 1 \<le> at + n" by arith
  ultimately show ?thesis by (rule zero_within)
qed

lemma update_zero:
  assumes "i < cap" and "cap \<le> length b"
  shows "CHR 0x00 \<in> set (take cap (b[i := CHR 0x00]))"
proof -
  from assms have "i < length (take cap (b[i := CHR 0x00]))" by simp
  moreover from assms have "take cap (b[i := CHR 0x00]) ! i = CHR 0x00" by simp
  ultimately show ?thesis by (metis nth_mem)
qed

subsection \<open>Termination of the buffer\<close>

lemma terminated_line:
  assumes t: "terminated cap st" and w: "w \<le> remaining st - 1"
  shows "terminated cap
     (st\<lparr>buffer := fst (snprintf (buffer st) (cursor st) (remaining st) s),
         cursor := cursor st + w, remaining := remaining st - w,
         total_written := tw, total_count := c, total_bytes := b\<rparr>)"
proof -
  from t have r: "1 \<le> remaining st" and cap: "cursor st + remaining st = cap"
    and len: "cap \<le> length (buffer st)"
    by (simp_all add: terminated_def)
  from cap len have fit: "cursor st + remaining st \<le> length (buffer st)" by simp
  have "length (fst (snprintf (buffer st) (cursor st) (remaining st) s)) = length (buffer st)"
    using r fit by (rule snprintf_length)
  moreover have "CHR 0x00 \<in> set (take (cursor st + remaining st)
      (fst (snprintf (buffer st) (cursor st) (remaining st) s)))"
    using r fit by (rule snprintf_zero)
  moreover from r w have "1 \<le> remaining st - w" by arith
  moreover from r w cap have "cursor st + w + (remaining st - w) = cap" by arith
  ultimately show ?thesis using len cap by (simp add: terminated_def)
qed

lemma terminated_stored:
  assumes t: "terminated cap st"
  shows "terminated cap
     (st\<lparr>buffer := fst (snprintf (buffer st) (cursor st) (remaining st) s), total_written := tw\<rparr>)"
proof -
  have "st\<lparr>buffer := fst (snprintf (buffer st) (cursor st) (remaining st) s), total_written := tw\<rparr>
      = st\<lparr>buffer := fst (snprintf (buffer st) (cursor st) (remaining st) s),
          cursor := cursor st + 0, remaining := remaining st - 0,
          total_written := tw, total_count := total_count st, total_bytes := total_bytes st\<rparr>"
    by simp
  moreover have "terminated cap \<dots>"
    using t by (rule terminated_line) simp
  ultimately show ?thesis by (simp only:)
qed

lemma clamped:
  "unat (if unat w \<ge> n then word_of_nat (n - 1) else (w :: c_int)) \<le> n - 1"
  using c_int_unat_le [of "n - 1"] by (simp split: if_splits) arith

lemma chain_loop_terminated:
  "terminated cap st \<Longrightarrow> terminated cap (chain_loop fmt c st)"
proof (induction c arbitrary: st)
  case Nil
  then show ?case by simp
next
  case (Cons a as)
  let ?sn = "snprintf (buffer st) (cursor st) (remaining st) (fmt a)"
  let ?w = "if unat (snd ?sn) \<ge> remaining st then word_of_nat (remaining st - 1) else snd ?sn"
  show ?case
  proof (cases "remaining st > 1 \<and> \<not> sint (snd ?sn) < 0")
    case True
    have "terminated cap
       (st\<lparr>buffer := fst ?sn, cursor := cursor st + unat ?w, remaining := remaining st - unat ?w,
           total_written := total_written st + ?w, total_count := total_count st + 1,
           total_bytes := total_bytes st + size' a\<rparr>)"
      using Cons.prems clamped by (rule terminated_line)
    then have "terminated cap (chain_loop fmt as
       (st\<lparr>buffer := fst ?sn, cursor := cursor st + unat ?w, remaining := remaining st - unat ?w,
           total_written := total_written st + ?w, total_count := total_count st + 1,
           total_bytes := total_bytes st + size' a\<rparr>))"
      by (rule Cons.IH)
    with True show ?thesis
      by (simp add: Let_def split_beta)
  next
    case False
    have "terminated cap (st\<lparr>buffer := fst ?sn, total_written := total_written st\<rparr>)"
      using Cons.prems by (rule terminated_stored)
    with False Cons.prems show ?thesis
      by (auto simp: Let_def split_beta)
  qed
qed

lemma bucket_loop_terminated:
  "terminated cap st \<Longrightarrow> terminated cap (bucket_loop fmt cs st)"
proof (induction cs arbitrary: st)
  case Nil
  then show ?case by simp
next
  case (Cons c cs)
  from Cons.prems have "terminated cap (chain_loop fmt c st)"
    by (rule chain_loop_terminated)
  then have "terminated cap (bucket_loop fmt cs (chain_loop fmt c st))"
    by (rule Cons.IH)
  with Cons.prems show ?case by simp
qed

lemma closing_line_terminated:
  assumes "terminated cap st"
  shows "terminated cap (closing_line s st)"
proof -
  let ?sn = "snprintf (buffer st) (cursor st) (remaining st) s"
  have "terminated cap (st\<lparr>buffer := fst ?sn, total_written := tw\<rparr>)" for tw
    using assms by (rule terminated_stored)
  from this [of "total_written st"] this
  show ?thesis
    by (auto simp: closing_line_def Let_def split_beta)
qed

lemma header_stored:
  assumes cap: "1 \<le> cap" "cap \<le> length buf"
  shows "length (fst (snprintf buf 0 cap s)) = length buf"
    and "CHR 0x00 \<in> set (take cap (fst (snprintf buf 0 cap s)))"
proof -
  from cap have fit: "0 + cap \<le> length buf" by simp
  from cap(1) fit show "length (fst (snprintf buf 0 cap s)) = length buf"
    by (rule snprintf_length)
  from cap(1) fit have "CHR 0x00 \<in> set (take (0 + cap) (fst (snprintf buf 0 cap s)))"
    by (rule snprintf_zero)
  then show "CHR 0x00 \<in> set (take cap (fst (snprintf buf 0 cap s)))" by simp
qed

lemma listing_string_terminated:
  assumes cap: "1 \<le> cap" "cap \<le> length buf"
  shows "\<exists>buf'. snd (listing_string header fmt none_line total_line (Some buf) cap g) = Some buf'
           \<and> CHR 0x00 \<in> set (take cap buf')"
proof -
  let ?sn = "snprintf buf 0 cap header"
  note h = header_stored [OF cap, of header]
  from cap h(1) have lb: "cap \<le> length (fst ?sn)" by simp
  show ?thesis
  proof (cases "sint (snd ?sn) < 0")
    case True
    from cap lb have "CHR 0x00 \<in> set (take cap ((fst ?sn)[0 := CHR 0x00]))"
      by (intro update_zero) simp_all
    with cap True show ?thesis
      by (simp add: listing_string_def split_beta)
  next
    case nonneg: False
    show ?thesis
    proof (cases "unat (snd ?sn) \<ge> cap")
      case True
      from cap lb have "CHR 0x00 \<in> set (take cap ((fst ?sn)[cap - 1 := CHR 0x00]))"
        by (intro update_zero) simp_all
      with cap nonneg True show ?thesis
        by (simp add: listing_string_def split_beta)
    next
      case False
      define st where "st = \<lparr>buffer = fst ?sn, cursor = unat (snd ?sn),
           remaining = cap - unat (snd ?sn), total_written = snd ?sn,
           total_count = 0, total_bytes = 0\<rparr>"
      define st1 where "st1 = bucket_loop fmt (map (hash_table g) [0..<MEMM_HASH_TABLE_SIZE]) st"
      define st2 where "st2 = (if total_count st1 = 0 \<and> remaining st1 > 1
                      then closing_line none_line st1
                    else if remaining st1 > 1
                      then closing_line (total_line (total_count st1) (total_bytes st1)) st1
                    else st1)"
      have unfold: "listing_string header fmt none_line total_line (Some buf) cap g
          = (sint (total_written st2),
             Some (if remaining st2 = 0 \<and> cap > 0 then (buffer st2)[cap - 1 := CHR 0x00] else buffer st2))"
        using cap nonneg False unfolding st2_def st1_def st_def
        by (simp add: listing_string_def split_beta Let_def)
      from False h lb have "terminated cap st"
        by (simp add: terminated_def st_def)
      then have "terminated cap st1"
        unfolding st1_def by (rule bucket_loop_terminated)
      then have "terminated cap st2"
        unfolding st2_def by (simp add: closing_line_terminated)
      then have "remaining st2 \<noteq> 0" and "CHR 0x00 \<in> set (take cap (buffer st2))"
        by (simp_all add: terminated_def)
      then show ?thesis unfolding unfold by simp
    qed
  qed
qed

lemma stats_string_terminated:
  assumes cap: "1 \<le> cap" "cap \<le> length buf"
  shows "\<exists>buf'. snd (memm_get_stats_string (Some buf) cap g) = Some buf'
           \<and> CHR 0x00 \<in> set (take cap buf')"
proof -
  let ?sn = "snprintf buf 0 cap (stats_text g)"
  note h = header_stored [OF cap, of "stats_text g"]
  from cap h(1) have lb: "cap \<le> length (fst ?sn)" by simp
  from cap lb have z0: "CHR 0x00 \<in> set (take cap ((fst ?sn)[0 := CHR 0x00]))"
    by (intro update_zero) simp_all
  from cap lb have z1: "CHR 0x00 \<in> set (take cap ((fst ?sn)[cap - 1 := CHR 0x00]))"
    by (intro update_zero) simp_all
  from cap z0 z1 h(2) show ?thesis
    by (simp add: memm_get_stats_string_def split_beta)
qed

lemma report_refused:
  "memm_get_stats_string None n g = (- 1, None)"
  "memm_get_stats_string (Some buf) 0 g = (- 1, Some buf)"
  "memm_get_allocations_string None n g = (- 1, None)"
  "memm_get_allocations_string (Some buf) 0 g = (- 1, Some buf)"
  "memm_get_leaks_string None n g = (- 1, None)"
  "memm_get_leaks_string (Some buf) 0 g = (- 1, Some buf)"
  by (simp_all add: memm_get_stats_string_def memm_get_allocations_string_def
      memm_get_leaks_string_def listing_string_def)

subsection \<open>Null termination\<close>

text \<open>
  C1. Given a buffer and a capacity of at least 1 (within the buffer), each of the three
  report functions leaves a zero byte within the capacity: the buffer is null-terminated.
  Given the null pointer, or the capacity 0, each returns \<open>-1\<close> and the buffer is what it
  was.
\<close>

theorem reports_null_terminated:
  "(1 \<le> buffer_size \<and> buffer_size \<le> length buf \<longrightarrow>
      (\<exists>buf'. snd (memm_get_stats_string (Some buf) buffer_size g) = Some buf'
          \<and> CHR 0x00 \<in> set (take buffer_size buf'))
    \<and> (\<exists>buf'. snd (memm_get_allocations_string (Some buf) buffer_size g) = Some buf'
          \<and> CHR 0x00 \<in> set (take buffer_size buf'))
    \<and> (\<exists>buf'. snd (memm_get_leaks_string (Some buf) buffer_size g) = Some buf'
          \<and> CHR 0x00 \<in> set (take buffer_size buf')))
   \<and> memm_get_stats_string None buffer_size g = (- 1, None)
   \<and> memm_get_stats_string (Some buf) 0 g = (- 1, Some buf)
   \<and> memm_get_allocations_string None buffer_size g = (- 1, None)
   \<and> memm_get_allocations_string (Some buf) 0 g = (- 1, Some buf)
   \<and> memm_get_leaks_string None buffer_size g = (- 1, None)
   \<and> memm_get_leaks_string (Some buf) 0 g = (- 1, Some buf)"
proof (intro conjI impI)
  assume a: "1 \<le> buffer_size \<and> buffer_size \<le> length buf"
  then have cap: "1 \<le> buffer_size" "buffer_size \<le> length buf" by simp_all
  from cap show "\<exists>buf'. snd (memm_get_stats_string (Some buf) buffer_size g) = Some buf'
          \<and> CHR 0x00 \<in> set (take buffer_size buf')"
    by (rule stats_string_terminated)
  from cap show "\<exists>buf'. snd (memm_get_allocations_string (Some buf) buffer_size g) = Some buf'
          \<and> CHR 0x00 \<in> set (take buffer_size buf')"
    unfolding memm_get_allocations_string_def by (rule listing_string_terminated)
  from cap show "\<exists>buf'. snd (memm_get_leaks_string (Some buf) buffer_size g) = Some buf'
          \<and> CHR 0x00 \<in> set (take buffer_size buf')"
    unfolding memm_get_leaks_string_def by (rule listing_string_terminated)
qed (rule report_refused)+

theorem reports_null_terminated_witness:
  "(1::nat) \<le> 40 \<and> 40 \<le> length (replicate 64 CHR ''#'')
   \<and> (\<exists>buf'. snd (memm_get_stats_string (Some (replicate 64 CHR ''#'')) 40 memm_zero) = Some buf'
          \<and> CHR 0x00 \<in> set (take 40 buf'))
   \<and> (\<exists>buf'. snd (memm_get_allocations_string (Some (replicate 64 CHR ''#'')) 40 memm_zero) = Some buf'
          \<and> CHR 0x00 \<in> set (take 40 buf'))
   \<and> (\<exists>buf'. snd (memm_get_leaks_string (Some (replicate 64 CHR ''#'')) 40 memm_zero) = Some buf'
          \<and> CHR 0x00 \<in> set (take 40 buf'))
   \<and> memm_get_stats_string None 40 memm_zero = (- 1, None)
   \<and> memm_get_leaks_string (Some (replicate 64 CHR ''#'')) 0 memm_zero = (- 1, Some (replicate 64 CHR ''#''))"
  using reports_null_terminated [of 40 "replicate 64 CHR ''#''" memm_zero]
  by simp

subsection \<open>The length of a conversion\<close>

lemma digits_length:
  "2 \<le> b \<Longrightarrow> n < b ^ k \<Longrightarrow> 0 < k \<Longrightarrow> length (digits b n) \<le> k"
proof (induction k arbitrary: n)
  case 0
  then show ?case by simp
next
  case (Suc k)
  show ?case
  proof (cases "n < b")
    case True
    then show ?thesis by (simp add: digits.simps)
  next
    case False
    with Suc.prems have k: "0 < k" by (cases k) simp_all
    from Suc.prems have "n div b < b ^ k"
      by (simp add: less_mult_imp_div_less mult.commute)
    with Suc.prems(1) k have "length (digits b (n div b)) \<le> k" by (intro Suc.IH)
    with False Suc.prems(1) show ?thesis
      by (subst digits.simps) simp
  qed
qed

lemma digits_nonempty: "1 \<le> length (digits b n)"
  by (subst digits.simps) simp

lemma fmt_zu_length: "length (fmt_zu x) \<le> 20"
proof -
  have "unat x < 2 ^ 64" using unsigned_less [of x] by simp
  also have "(2 :: nat) ^ 64 \<le> 10 ^ 20" by simp
  finally have "unat x < 10 ^ 20" .
  then show ?thesis unfolding fmt_zu_def by (intro digits_length) simp_all
qed

lemma fmt_p_length: "3 \<le> length (fmt_p p) \<and> length (fmt_p p) \<le> 18"
proof -
  have "unat p < 2 ^ 64" using unsigned_less [of p] by simp
  also have "(2 :: nat) ^ 64 = 16 ^ 16" by simp
  finally have "unat p < 16 ^ 16" .
  then have "length (digits 16 (unat p)) \<le> 16" by (intro digits_length) simp_all
  with digits_nonempty [of 16 "unat p"] show ?thesis by (simp add: fmt_p_def)
qed

lemma fmt_6zu_length: "6 \<le> length (fmt_6zu x) \<and> length (fmt_6zu x) \<le> 20"
  using fmt_zu_length [of x] unfolding fmt_6zu_def length_append length_replicate by arith

lemma stats_text_length: "length (stats_text g) \<le> INT_MAX"
proof -
  have "length (fmt_d (int MEMM_HASH_TABLE_SIZE)) \<le> 4"
    unfolding fmt_d_def MEMM_HASH_TABLE_SIZE_def by (simp add: digits_length)
  with fmt_zu_length [of "total_allocated g"] fmt_zu_length [of "total_freed g"]
    fmt_zu_length [of "memm_get_current_usage g"] fmt_zu_length [of "memm_get_peak_usage g"]
    fmt_zu_length [of "memm_get_allocation_count g"] fmt_zu_length [of "memm_get_free_count g"]
    fmt_zu_length [of "memm_get_allocation_count g - memm_get_free_count g"]
  show ?thesis
    unfolding stats_text_def INT_MAX_def by simp
qed

lemma allocations_total_line_length: "length (allocations_total_line n b) \<le> INT_MAX"
  using fmt_zu_length [of n] fmt_zu_length [of b]
  unfolding allocations_total_line_def INT_MAX_def by simp

lemma leaks_total_line_length: "length (leaks_total_line n b) \<le> INT_MAX"
  using fmt_zu_length [of n] fmt_zu_length [of b]
  unfolding leaks_total_line_def INT_MAX_def by simp

lemma allocation_line_length:
  "length (allocation_line r)
     = 15 + length (fmt_p (ptr r)) + length (fmt_6zu (size' r)) + length (file' r)
         + length (fmt_d (line r))"
  by (simp add: allocation_line_def)

subsection \<open>The report loops\<close>

lemma emitted_remaining: "emitted cap out st \<Longrightarrow> 1 \<le> remaining st"
  by (auto simp: emitted_def min_def)

lemma emitted_open:
  assumes e: "emitted cap out st" and r: "remaining st > 1"
  shows "cursor st = length out" and "length out + remaining st = cap"
    and "take (length out) (buffer st) = out"
proof -
  from e r show c: "cursor st = length out"
    by (auto simp: emitted_def min_def split: if_splits)
  from e r c show "length out + remaining st = cap"
    by (auto simp: emitted_def)
  from e r c have lt: "length out \<le> cap - 1" by (auto simp: emitted_def)
  from e c have "take (length out + 1) (buffer st) = take (cap - 1) out @ [CHR 0x00]"
    by (simp add: emitted_def)
  with lt have "take (length out + 1) (buffer st) = out @ [CHR 0x00]" by simp
  then have "take (length out) (take (length out + 1) (buffer st)) = take (length out) (out @ [CHR 0x00])"
    by (simp only:)
  then show "take (length out) (buffer st) = out" by (simp add: min_def)
qed

lemma emitted_line:
  assumes e: "emitted cap out st" and r: "remaining st > 1"
  shows "emitted cap (out @ s)
     (st\<lparr>buffer := fst (snprintf (buffer st) (cursor st) (remaining st) s),
         cursor := cursor st + min (length s) (remaining st - 1),
         remaining := remaining st - min (length s) (remaining st - 1),
         total_written := total_written st + word_of_nat (min (length s) (remaining st - 1)),
         total_count := c, total_bytes := b\<rparr>)"
proof -
  let ?n = "remaining st"
  let ?buf = "fst (snprintf (buffer st) (cursor st) ?n s)"
  note o = emitted_open [OF e r]
  from e have cap: "1 \<le> cap" "cap \<le> length (buffer st)"
    and tw: "total_written st = word_of_nat (cursor st)"
    by (simp_all add: emitted_def)
  from o cap have fit: "cursor st + ?n \<le> length (buffer st)" by simp
  from r have n1: "1 \<le> ?n" by simp
  have len: "length ?buf = length (buffer st)"
    using n1 fit by (rule snprintf_length)
  have tk: "take (cursor st + min (length s) (?n - 1) + 1) ?buf
              = take (cursor st) (buffer st) @ take (?n - 1) s @ [CHR 0x00]"
    using n1 fit by (rule snprintf_take)
  from o have n: "?n - 1 = cap - 1 - length out" by simp
  have cur: "cursor st + min (length s) (?n - 1) = min (length (out @ s)) (cap - 1)"
    using o r unfolding length_append by arith
  have "length out \<le> cap - 1" using o r by arith
  then have t1: "take (cap - 1) out = out" by simp
  have t2: "cap - 1 - length out = ?n - 1" using o r by arith
  have out: "take (cap - 1) (out @ s) = out @ take (?n - 1) s"
    by (simp only: take_append t1 t2)
  have "total_written st + word_of_nat (min (length s) (?n - 1))
      = word_of_nat (cursor st + min (length s) (?n - 1))"
    by (simp only: tw of_nat_add)
  then have tw': "total_written st + word_of_nat (min (length s) (?n - 1))
      = word_of_nat (min (length (out @ s)) (cap - 1))"
    by (simp only: cur)
  from tk have "take (cursor st + min (length s) (?n - 1) + 1) ?buf = take (cap - 1) (out @ s) @ [CHR 0x00]"
    by (simp only: out o(1) o(3) append_assoc)
  moreover have "?n - min (length s) (?n - 1) = cap - (cursor st + min (length s) (?n - 1))"
    using o r by arith
  ultimately show ?thesis
    using cap len cur tw' by (simp add: emitted_def)
qed

lemma emitted_skip:
  assumes e: "emitted cap out st" and r: "\<not> remaining st > 1"
  shows "emitted cap (out @ s) st"
proof -
  from e have c: "cursor st = min (length out) (cap - 1)" and m: "remaining st = cap - cursor st"
    and cap: "1 \<le> cap"
    by (simp_all add: emitted_def)
  from c m r cap have l: "cap - 1 \<le> length out" by arith
  then have eq1: "min (length (out @ s)) (cap - 1) = min (length out) (cap - 1)" by simp
  from l have eq2: "take (cap - 1) (out @ s) = take (cap - 1) out" by simp
  from e show ?thesis unfolding emitted_def eq1 eq2 .
qed

text \<open>
  The line that \<^verbatim>\<open>snprintf\<close> does not refuse: what the body of the loop makes of its
  result.
\<close>

lemma written_clamped:
  assumes r: "remaining st > 1" and l: "length s \<le> INT_MAX"
  shows "\<not> sint (snd (snprintf b at (remaining st) s)) < 0"
    and "unat (if unat (snd (snprintf b at (remaining st) s)) \<ge> remaining st
               then word_of_nat (remaining st - 1) else snd (snprintf b at (remaining st) s))
           = min (length s) (remaining st - 1)"
    and "(if unat (snd (snprintf b at (remaining st) s)) \<ge> remaining st
          then word_of_nat (remaining st - 1) else snd (snprintf b at (remaining st) s))
           = (word_of_nat (min (length s) (remaining st - 1)) :: c_int)"
    and "unat (word_of_nat (min (length s) (remaining st - 1)) :: c_int)
           = min (length s) (remaining st - 1)"
proof -
  from l have w: "snd (snprintf b at (remaining st) s) = word_of_nat (length s)"
    by (rule snprintf_returns)
  from l have u: "unat (word_of_nat (length s) :: c_int) = length s" by (rule c_int_unat)
  from l show "\<not> sint (snd (snprintf b at (remaining st) s)) < 0"
    by (simp add: w c_int_sint)
  show "(if unat (snd (snprintf b at (remaining st) s)) \<ge> remaining st
          then word_of_nat (remaining st - 1) else snd (snprintf b at (remaining st) s))
           = (word_of_nat (min (length s) (remaining st - 1)) :: c_int)"
  proof (cases "remaining st \<le> length s")
    case True
    with r have "min (length s) (remaining st - 1) = remaining st - 1" by arith
    with True show ?thesis by (simp only: w u if_True)
  next
    case False
    with r have "min (length s) (remaining st - 1) = length s" by arith
    with False show ?thesis by (simp only: w u if_False)
  qed
  moreover from l have m: "min (length s) (remaining st - 1) \<le> INT_MAX" by arith
  then show "unat (word_of_nat (min (length s) (remaining st - 1)) :: c_int)
           = min (length s) (remaining st - 1)"
    by (rule c_int_unat)
  ultimately show "unat (if unat (snd (snprintf b at (remaining st) s)) \<ge> remaining st
               then word_of_nat (remaining st - 1) else snd (snprintf b at (remaining st) s))
           = min (length s) (remaining st - 1)"
    by (simp only:)
qed

lemma chain_loop_step:
  assumes r: "remaining st > 1" and l: "length (fmt a) \<le> INT_MAX"
  shows "chain_loop fmt (a # as) st =
     chain_loop fmt as
       (st\<lparr>buffer := fst (snprintf (buffer st) (cursor st) (remaining st) (fmt a)),
           cursor := cursor st + min (length (fmt a)) (remaining st - 1),
           remaining := remaining st - min (length (fmt a)) (remaining st - 1),
           total_written := total_written st + word_of_nat (min (length (fmt a)) (remaining st - 1)),
           total_count := total_count st + 1,
           total_bytes := total_bytes st + size' a\<rparr>)"
proof -
  note w = written_clamped(1-3) [OF r l, of "buffer st" "cursor st"] written_clamped(4) [OF r l]
  from r show ?thesis
    unfolding chain_loop.simps split_beta Let_def
    by (simp only: w if_True if_False)
qed

lemma chain_loop_emitted:
  "emitted cap out st \<Longrightarrow> \<forall>a \<in> set c. length (fmt a) \<le> INT_MAX
     \<Longrightarrow> emitted cap (out @ concat (map fmt c)) (chain_loop fmt c st)"
proof (induction c arbitrary: st out)
  case Nil
  then show ?case by simp
next
  case (Cons a as)
  from Cons.prems(2) have l: "length (fmt a) \<le> INT_MAX"
    and ls: "\<forall>a \<in> set as. length (fmt a) \<le> INT_MAX" by simp_all
  show ?case
  proof (cases "remaining st > 1")
    case True
    from emitted_line [OF Cons.prems(1) True] ls
    have "emitted cap ((out @ fmt a) @ concat (map fmt as))
       (chain_loop fmt as
         (st\<lparr>buffer := fst (snprintf (buffer st) (cursor st) (remaining st) (fmt a)),
           cursor := cursor st + min (length (fmt a)) (remaining st - 1),
           remaining := remaining st - min (length (fmt a)) (remaining st - 1),
           total_written := total_written st + word_of_nat (min (length (fmt a)) (remaining st - 1)),
           total_count := total_count st + 1,
           total_bytes := total_bytes st + size' a\<rparr>))"
      by (rule Cons.IH)
    with True l show ?thesis by (simp only: chain_loop_step) simp
  next
    case False
    with Cons.prems(1) have "emitted cap (out @ concat (map fmt (a # as))) st"
      by (rule emitted_skip)
    with False show ?thesis by simp
  qed
qed

lemma chain_loop_counts:
  "remaining (chain_loop fmt c st) > 1 \<Longrightarrow> \<forall>a \<in> set c. length (fmt a) \<le> INT_MAX \<Longrightarrow>
     total_count (chain_loop fmt c st) = total_count st + word_of_nat (length c)
   \<and> total_bytes (chain_loop fmt c st) = total_bytes st + sum_list (map size' c)"
proof (induction c arbitrary: st)
  case Nil
  then show ?case by simp
next
  case (Cons a as)
  from Cons.prems(2) have l: "length (fmt a) \<le> INT_MAX"
    and ls: "\<forall>a \<in> set as. length (fmt a) \<le> INT_MAX" by simp_all
  show ?case
  proof (cases "remaining st > 1")
    case True
    with Cons.prems(1) l ls Cons.IH show ?thesis
      by (simp only: chain_loop_step) (simp add: add.assoc)
  next
    case False
    with Cons.prems(1) show ?thesis by simp
  qed
qed

lemma bucket_loop_emitted:
  "emitted cap out st \<Longrightarrow> \<forall>a \<in> set (concat cs). length (fmt a) \<le> INT_MAX
     \<Longrightarrow> emitted cap (out @ concat (map fmt (concat cs))) (bucket_loop fmt cs st)"
proof (induction cs arbitrary: st out)
  case Nil
  then show ?case by simp
next
  case (Cons c cs)
  from Cons.prems(2) have l: "\<forall>a \<in> set c. length (fmt a) \<le> INT_MAX"
    and ls: "\<forall>a \<in> set (concat cs). length (fmt a) \<le> INT_MAX" by simp_all
  show ?case
  proof (cases "remaining st > 1")
    case True
    from Cons.prems(1) l have "emitted cap (out @ concat (map fmt c)) (chain_loop fmt c st)"
      by (rule chain_loop_emitted)
    then have "emitted cap ((out @ concat (map fmt c)) @ concat (map fmt (concat cs)))
                 (bucket_loop fmt cs (chain_loop fmt c st))"
      using ls by (rule Cons.IH)
    with True show ?thesis by simp
  next
    case False
    with Cons.prems(1) have "emitted cap (out @ concat (map fmt (concat (c # cs)))) st"
      by (rule emitted_skip)
    with False show ?thesis by simp
  qed
qed

lemma bucket_loop_counts:
  "remaining (bucket_loop fmt cs st) > 1 \<Longrightarrow> \<forall>a \<in> set (concat cs). length (fmt a) \<le> INT_MAX \<Longrightarrow>
     total_count (bucket_loop fmt cs st) = total_count st + word_of_nat (length (concat cs))
   \<and> total_bytes (bucket_loop fmt cs st) = total_bytes st + sum_list (map size' (concat cs))"
proof (induction cs arbitrary: st)
  case Nil
  then show ?case by simp
next
  case (Cons c cs)
  from Cons.prems(2) have l: "\<forall>a \<in> set c. length (fmt a) \<le> INT_MAX"
    and ls: "\<forall>a \<in> set (concat cs). length (fmt a) \<le> INT_MAX" by simp_all
  show ?case
  proof (cases "remaining st > 1")
    case True
    with Cons.prems(1) have r: "remaining (bucket_loop fmt cs (chain_loop fmt c st)) > 1" by simp
    from Cons.IH [OF r ls] have 1:
      "total_count (bucket_loop fmt cs (chain_loop fmt c st))
          = total_count (chain_loop fmt c st) + word_of_nat (length (concat cs))"
      "total_bytes (bucket_loop fmt cs (chain_loop fmt c st))
          = total_bytes (chain_loop fmt c st) + sum_list (map size' (concat cs))"
      by simp_all
    have "remaining (chain_loop fmt c st) > 1"
    proof (rule ccontr)
      assume "\<not> remaining (chain_loop fmt c st) > 1"
      then have "bucket_loop fmt cs (chain_loop fmt c st) = chain_loop fmt c st"
        by (cases cs) simp_all
      with r \<open>\<not> remaining (chain_loop fmt c st) > 1\<close> show False by simp
    qed
    from chain_loop_counts [OF this l] 1 True show ?thesis
      by (simp add: add.assoc)
  next
    case False
    with Cons.prems(1) show ?thesis by simp
  qed
qed

subsection \<open>What a listing writes\<close>

lemma closing_line_emitted:
  assumes e: "emitted cap out st" and r: "remaining st > 1" and l: "length s \<le> INT_MAX"
  shows "total_written (closing_line s st) = word_of_nat (min (length (out @ s)) (cap - 1))
       \<and> take (min (length (out @ s)) (cap - 1) + 1) (buffer (closing_line s st))
            = take (cap - 1) (out @ s) @ [CHR 0x00]
       \<and> remaining (closing_line s st) = remaining st"
proof -
  let ?m = "min (length s) (remaining st - 1)"
  let ?st = "st\<lparr>buffer := fst (snprintf (buffer st) (cursor st) (remaining st) s),
         cursor := cursor st + ?m,
         remaining := remaining st - ?m,
         total_written := total_written st + word_of_nat ?m,
         total_count := total_count st, total_bytes := total_bytes st\<rparr>"
  note w = written_clamped(1-3) [OF r l, of "buffer st" "cursor st"] written_clamped(4) [OF r l]
  from e r have em: "emitted cap (out @ s) ?st" by (rule emitted_line)
  have b: "buffer (closing_line s st) = buffer ?st"
    by (simp add: closing_line_def split_beta Let_def)
  have rm: "remaining (closing_line s st) = remaining st"
    by (simp add: closing_line_def split_beta Let_def)
  have tw: "total_written (closing_line s st) = total_written ?st"
  proof (cases "length s = 0")
    case True
    then show ?thesis
      by (simp add: closing_line_def snprintf_def Let_def)
  next
    case False
    from l have "snd (snprintf (buffer st) (cursor st) (remaining st) s) = word_of_nat (length s)"
      by (rule snprintf_returns)
    with False l have "sint (snd (snprintf (buffer st) (cursor st) (remaining st) s)) > 0"
      by (simp add: c_int_sint)
    then show ?thesis
      unfolding closing_line_def split_beta Let_def
      by (simp add: w(3) del: of_nat_min)
  qed
  from em have c: "cursor ?st = min (length (out @ s)) (cap - 1)"
    and t: "total_written ?st = word_of_nat (cursor ?st)"
    and k: "take (cursor ?st + 1) (buffer ?st) = take (cap - 1) (out @ s) @ [CHR 0x00]"
    unfolding emitted_def by blast+
  from t k have "total_written ?st = word_of_nat (min (length (out @ s)) (cap - 1))"
    and "take (min (length (out @ s)) (cap - 1) + 1) (buffer ?st) = take (cap - 1) (out @ s) @ [CHR 0x00]"
    unfolding c by blast+
  with b rm tw show ?thesis by (simp only: simp_thms)
qed

lemma header_cut:
  assumes cap: "1 \<le> cap" "cap \<le> length buf" and long: "cap \<le> length header"
  shows "take cap ((fst (snprintf buf 0 cap header))[cap - 1 := CHR 0x00])
           = take (cap - 1) header @ [CHR 0x00]"
proof -
  from cap have "0 + cap \<le> length buf" by simp
  with cap(1) have "take (0 + min (length header) (cap - 1) + 1) (fst (snprintf buf 0 cap header))
      = take 0 buf @ take (cap - 1) header @ [CHR 0x00]"
    by (rule snprintf_take)
  moreover from cap long have "0 + min (length header) (cap - 1) + 1 = cap" by arith
  ultimately have t: "take cap (fst (snprintf buf 0 cap header)) = take (cap - 1) header @ [CHR 0x00]"
    by simp
  from cap long have len: "length (take (cap - 1) header) = cap - 1" by simp
  have "take cap ((fst (snprintf buf 0 cap header))[cap - 1 := CHR 0x00])
          = (take cap (fst (snprintf buf 0 cap header)))[cap - 1 := CHR 0x00]"
    using cap by (simp add: take_update_swap)
  also have "\<dots> = (take (cap - 1) header @ [CHR 0x00])[cap - 1 := CHR 0x00]"
    by (simp only: t)
  also have "\<dots> = take (cap - 1) header @ [CHR 0x00]"
    using len by (simp add: list_update_append)
  finally show ?thesis .
qed

lemma header_emitted:
  assumes cap: "1 \<le> cap" "cap \<le> length buf" and short: "length header < cap"
  shows "emitted cap header
     \<lparr>buffer = fst (snprintf buf 0 cap header), cursor = length header,
       remaining = cap - length header, total_written = word_of_nat (length header),
       total_count = 0, total_bytes = 0\<rparr>"
proof -
  from cap have "0 + cap \<le> length buf" by simp
  with cap(1) have "take (0 + min (length header) (cap - 1) + 1) (fst (snprintf buf 0 cap header))
      = take 0 buf @ take (cap - 1) header @ [CHR 0x00]"
    and "length (fst (snprintf buf 0 cap header)) = length buf"
    by (rule snprintf_take, rule snprintf_length)
  moreover from short have "min (length header) (cap - 1) = length header" by arith
  ultimately show ?thesis
    using cap short by (simp add: emitted_def)
qed

text \<open>
  When \<^verbatim>\<open>snprintf\<close> refuses no line, a listing returns, as an \<^verbatim>\<open>int\<close>, the number of
  characters of the full report that the capacity holds, and leaves them and a zero in the
  buffer.
\<close>

lemma listing_string_correct:
  assumes cap: "1 \<le> cap" "cap \<le> length buf"
    and lh: "length header \<le> INT_MAX"
    and ll: "\<forall>r \<in> set (iterate g). length (fmt r) \<le> INT_MAX"
    and ln: "length none_line \<le> INT_MAX"
    and lt: "\<And>n b. length (total_line n b) \<le> INT_MAX"
  shows "\<exists>buf'. listing_string header fmt none_line total_line (Some buf) cap g
            = (sint (word_of_nat (min (length (listing_text header fmt none_line total_line g)) (cap - 1)) :: c_int),
               Some buf')
         \<and> take (min (length (listing_text header fmt none_line total_line g)) (cap - 1) + 1) buf'
            = take (cap - 1) (listing_text header fmt none_line total_line g) @ [CHR 0x00]"
proof -
  let ?full = "listing_text header fmt none_line total_line g"
  obtain b w where sn: "snprintf buf 0 cap header = (b, w)"
    by (cases "snprintf buf 0 cap header")
  with snprintf_returns [OF lh, of buf 0 cap] have w: "w = word_of_nat (length header)" by simp
  from lh have sw: "sint w = int (length header)" and uw: "unat w = length header"
    unfolding w by (rule c_int_sint, rule c_int_unat)
  from sn have b: "fst (snprintf buf 0 cap header) = b" by simp
  show ?thesis
  proof (cases "cap \<le> length header")
    case True
    let ?X = "b[cap - 1 := CHR 0x00]"
    from True have m: "min (length ?full) (cap - 1) = cap - 1"
      by (simp add: listing_text_def)
    from True have t: "take (cap - 1) ?full = take (cap - 1) header"
      by (simp add: listing_text_def)
    from cap have c: "cap - 1 + 1 = cap" by simp
    have r1: "listing_string header fmt none_line total_line (Some buf) cap g
        = (sint (word_of_nat (cap - 1) :: c_int), Some ?X)"
      using cap True by (simp add: listing_string_def sn sw uw)
    have r2: "take cap ?X = take (cap - 1) header @ [CHR 0x00]"
      using header_cut [OF cap True] unfolding b .
    from r1 r2 show ?thesis
      unfolding m t c by blast
  next
    case False
    then have short: "length header < cap" by simp
    let ?E = "header @ concat (map fmt (iterate g))"
    define st where "st = \<lparr>buffer = b, cursor = length header,
         remaining = cap - length header, total_written = w,
         total_count = 0, total_bytes = 0\<rparr>"
    define st1 where "st1 = bucket_loop fmt (map (hash_table g) [0..<MEMM_HASH_TABLE_SIZE]) st"
    define st2 where "st2 = (if total_count st1 = 0 \<and> remaining st1 > 1
                    then closing_line none_line st1
                  else if remaining st1 > 1
                    then closing_line (total_line (total_count st1) (total_bytes st1)) st1
                  else st1)"
    have unfold: "listing_string header fmt none_line total_line (Some buf) cap g
        = (sint (total_written st2),
           Some (if remaining st2 = 0 \<and> cap > 0 then (buffer st2)[cap - 1 := CHR 0x00] else buffer st2))"
      using cap short unfolding st2_def st1_def st_def
      by (simp add: listing_string_def sn sw uw Let_def)
    from ll have ll': "\<forall>a \<in> set (concat (map (hash_table g) [0..<MEMM_HASH_TABLE_SIZE])). length (fmt a) \<le> INT_MAX"
      by (simp only: iterate_def)
    have e0: "emitted cap header st"
      using header_emitted [OF cap short] unfolding st_def b w .
    then have e1: "emitted cap ?E st1"
      unfolding iterate_def st1_def using ll' by (rule bucket_loop_emitted)
    have fin: "total_written st2 = word_of_nat (min (length ?full) (cap - 1))
        \<and> take (min (length ?full) (cap - 1) + 1) (buffer st2) = take (cap - 1) ?full @ [CHR 0x00]
        \<and> remaining st2 \<noteq> 0"
    proof (cases "remaining st1 > 1")
      case True
      then have "remaining (bucket_loop fmt (map (hash_table g) [0..<MEMM_HASH_TABLE_SIZE]) st) > 1"
        by (simp only: st1_def)
      from bucket_loop_counts [OF this ll']
      have cnt: "total_count st1 = word_of_nat (length (iterate g))"
        and byt: "total_bytes st1 = sum_list (map size' (iterate g))"
        by (simp_all add: iterate_def st1_def st_def)
      let ?F = "if (word_of_nat (length (iterate g)) :: size_t) = 0 then none_line
            else total_line (word_of_nat (length (iterate g))) (sum_list (map size' (iterate g)))"
      have s2: "st2 = closing_line ?F st1"
        using True by (simp add: st2_def cnt byt)
      have full: "?full = ?E @ ?F"
        by (simp add: listing_text_def)
      from ln lt have "length ?F \<le> INT_MAX" by simp
      from closing_line_emitted [OF e1 True this] True show ?thesis
        unfolding s2 full by auto
    next
      case False
      then have s2: "st2 = st1" by (simp add: st2_def)
      obtain F where full: "?full = ?E @ F"
        by (simp add: listing_text_def)
      from e1 False have e: "emitted cap (?E @ F) st1" by (rule emitted_skip)
      from e have "1 \<le> remaining st1" by (rule emitted_remaining)
      moreover from e have "total_written st1 = word_of_nat (min (length (?E @ F)) (cap - 1))"
        and "take (min (length (?E @ F)) (cap - 1) + 1) (buffer st1) = take (cap - 1) (?E @ F) @ [CHR 0x00]"
        unfolding emitted_def by auto
      ultimately show ?thesis
        unfolding s2 full by auto
    qed
    from fin have "listing_string header fmt none_line total_line (Some buf) cap g
        = (sint (word_of_nat (min (length ?full) (cap - 1)) :: c_int), Some (buffer st2))"
      unfolding unfold by simp
    with fin show ?thesis by blast
  qed
qed

lemma stats_string_correct:
  assumes cap: "1 \<le> cap" "cap \<le> length buf"
  shows "\<exists>buf'. memm_get_stats_string (Some buf) cap g
            = (int (min (length (stats_text g)) (cap - 1)), Some buf')
         \<and> take (min (length (stats_text g)) (cap - 1) + 1) buf'
            = take (cap - 1) (stats_text g) @ [CHR 0x00]"
proof -
  note l = stats_text_length [of g]
  obtain b w where sn: "snprintf buf 0 cap (stats_text g) = (b, w)"
    by (cases "snprintf buf 0 cap (stats_text g)")
  with snprintf_returns [OF l, of buf 0 cap] have w: "w = word_of_nat (length (stats_text g))"
    by simp
  from l have sw: "sint w = int (length (stats_text g))" and uw: "unat w = length (stats_text g)"
    unfolding w by (rule c_int_sint, rule c_int_unat)
  from sn have b: "fst (snprintf buf 0 cap (stats_text g)) = b" by simp
  show ?thesis
  proof (cases "cap \<le> length (stats_text g)")
    case True
    then have m: "min (length (stats_text g)) (cap - 1) = cap - 1" by simp
    from cap have c: "cap - 1 + 1 = cap" by simp
    from True l have "cap - 1 \<le> INT_MAX" by arith
    then have s: "sint (word_of_nat (cap - 1) :: c_int) = int (cap - 1)" by (rule c_int_sint)
    from cap True have "memm_get_stats_string (Some buf) cap g
        = (sint (word_of_nat (cap - 1) :: c_int), Some (b[cap - 1 := CHR 0x00]))"
      by (simp add: memm_get_stats_string_def sn sw uw)
    then have r1: "memm_get_stats_string (Some buf) cap g
        = (int (cap - 1), Some (b[cap - 1 := CHR 0x00]))"
      by (simp only: s)
    have r2: "take cap (b[cap - 1 := CHR 0x00]) = take (cap - 1) (stats_text g) @ [CHR 0x00]"
      using header_cut [OF cap True] unfolding b .
    from r1 r2 show ?thesis unfolding m c by blast
  next
    case False
    then have m: "min (length (stats_text g)) (cap - 1) = length (stats_text g)" by simp
    from False have t: "take (cap - 1) (stats_text g) = stats_text g" by simp
    from cap False have r1: "memm_get_stats_string (Some buf) cap g
        = (int (length (stats_text g)), Some b)"
      by (simp add: memm_get_stats_string_def sn sw uw)
    from cap have "0 + cap \<le> length buf" by simp
    with cap(1) have "take (0 + min (length (stats_text g)) (cap - 1) + 1) (fst (snprintf buf 0 cap (stats_text g)))
        = take 0 buf @ take (cap - 1) (stats_text g) @ [CHR 0x00]"
      by (rule snprintf_take)
    then have r2: "take (length (stats_text g) + 1) b = stats_text g @ [CHR 0x00]"
      unfolding b m t by simp
    from r1 r2 show ?thesis unfolding m t by blast
  qed
qed

lemma allocations_string_correct:
  assumes cap: "1 \<le> cap" "cap \<le> length buf"
    and ll: "\<forall>r \<in> set (iterate g). length (allocation_line r) \<le> INT_MAX"
  shows "\<exists>buf'. memm_get_allocations_string (Some buf) cap g
            = (sint (word_of_nat (min (length (allocations_text g)) (cap - 1)) :: c_int), Some buf')
         \<and> take (min (length (allocations_text g)) (cap - 1) + 1) buf'
            = take (cap - 1) (allocations_text g) @ [CHR 0x00]"
proof -
  have "length ''=== CURRENT ALLOCATIONS ===\<newline>'' \<le> INT_MAX"
    and "length ''  No active allocations\<newline>'' \<le> INT_MAX"
    by (simp_all add: INT_MAX_def)
  with cap show ?thesis
    unfolding memm_get_allocations_string_def allocations_text_def
    using ll allocations_total_line_length by (intro listing_string_correct)
qed

lemma leaks_string_correct:
  assumes cap: "1 \<le> cap" "cap \<le> length buf"
    and ll: "\<forall>r \<in> set (iterate g). length (leak_line r) \<le> INT_MAX"
  shows "\<exists>buf'. memm_get_leaks_string (Some buf) cap g
            = (sint (word_of_nat (min (length (leaks_text g)) (cap - 1)) :: c_int), Some buf')
         \<and> take (min (length (leaks_text g)) (cap - 1) + 1) buf'
            = take (cap - 1) (leaks_text g) @ [CHR 0x00]"
proof -
  have "length ''=== MEMORY LEAK REPORT ===\<newline>'' \<le> INT_MAX"
    and "length ''  No memory leaks detected!\<newline>'' \<le> INT_MAX"
    by (simp_all add: INT_MAX_def)
  with cap show ?thesis
    unfolding memm_get_leaks_string_def leaks_text_def
    using ll leaks_total_line_length by (intro listing_string_correct)
qed

text \<open>The count a capacity of at most \<open>INT_MAX + 1\<close> leaves is an \<^verbatim>\<open>int\<close>.\<close>

lemma count_fits:
  assumes "cap \<le> INT_MAX + 1"
  shows "sint (word_of_nat (min l (cap - 1)) :: c_int) = int (min l (cap - 1))"
proof -
  from assms have "min l (cap - 1) \<le> INT_MAX" by arith
  then show ?thesis by (rule c_int_sint)
qed

lemma report_cut:
  assumes cap: "1 \<le> cap" and long: "cap \<le> length s"
    and res: "\<exists>buf'. r = (int (min (length s) (cap - 1)), Some buf')
         \<and> take (min (length s) (cap - 1) + 1) buf' = take (cap - 1) s @ [CHR 0x00]"
  shows "\<exists>buf'. r = (int cap - 1, Some buf') \<and> take cap buf' = take (cap - 1) s @ [CHR 0x00]"
proof -
  from cap long have m: "min (length s) (cap - 1) = cap - 1" by arith
  from cap have c: "cap - 1 + 1 = cap" and i: "int (cap - 1) = int cap - 1" by arith+
  from res show ?thesis unfolding m c i .
qed

lemma report_whole:
  assumes short: "length s < cap"
    and res: "\<exists>buf'. r = (int (min (length s) (cap - 1)), Some buf')
         \<and> take (min (length s) (cap - 1) + 1) buf' = take (cap - 1) s @ [CHR 0x00]"
  shows "\<exists>buf'. r = (int (length s), Some buf') \<and> take (length s + 1) buf' = s @ [CHR 0x00]"
proof -
  from short have m: "min (length s) (cap - 1) = length s" by arith
  from short have t: "take (cap - 1) s = s" by simp
  from res show ?thesis unfolding m t .
qed

subsection \<open>Truncation\<close>

text \<open>
  C7. Given a buffer and a capacity of at least 1 (within the buffer). The statistics
  report: when the capacity does not hold the full report and its terminator, the function
  returns the capacity minus one, and the buffer holds the first capacity-minus-one
  characters of the full report and a zero; when it does, the function returns the length
  of the full report, and the buffer holds the report and a zero. The two listings: the
  same, for a capacity of at most \<open>INT_MAX + 1\<close> and a registry where no line of a record
  is longer than \<open>INT_MAX\<close> characters, so that \<^verbatim>\<open>snprintf\<close> refuses none. Given the null
  pointer, or the capacity 0, the result is negative.
\<close>

theorem reports_truncation:
  "(1 \<le> buffer_size \<and> buffer_size \<le> length buf \<longrightarrow>
      (buffer_size \<le> length (stats_text g) \<longrightarrow>
         (\<exists>buf'. memm_get_stats_string (Some buf) buffer_size g = (int buffer_size - 1, Some buf')
            \<and> take buffer_size buf' = take (buffer_size - 1) (stats_text g) @ [CHR 0x00]))
    \<and> (buffer_size \<le> INT_MAX + 1
         \<and> (\<forall>r \<in> set (iterate g). length (allocation_line r) \<le> INT_MAX)
         \<and> buffer_size \<le> length (allocations_text g) \<longrightarrow>
         (\<exists>buf'. memm_get_allocations_string (Some buf) buffer_size g = (int buffer_size - 1, Some buf')
            \<and> take buffer_size buf' = take (buffer_size - 1) (allocations_text g) @ [CHR 0x00]))
    \<and> (buffer_size \<le> INT_MAX + 1
         \<and> (\<forall>r \<in> set (iterate g). length (leak_line r) \<le> INT_MAX)
         \<and> buffer_size \<le> length (leaks_text g) \<longrightarrow>
         (\<exists>buf'. memm_get_leaks_string (Some buf) buffer_size g = (int buffer_size - 1, Some buf')
            \<and> take buffer_size buf' = take (buffer_size - 1) (leaks_text g) @ [CHR 0x00]))
    \<and> (length (stats_text g) < buffer_size \<longrightarrow>
         (\<exists>buf'. memm_get_stats_string (Some buf) buffer_size g = (int (length (stats_text g)), Some buf')
            \<and> take (length (stats_text g) + 1) buf' = stats_text g @ [CHR 0x00]))
    \<and> (buffer_size \<le> INT_MAX + 1
         \<and> (\<forall>r \<in> set (iterate g). length (allocation_line r) \<le> INT_MAX)
         \<and> length (allocations_text g) < buffer_size \<longrightarrow>
         (\<exists>buf'. memm_get_allocations_string (Some buf) buffer_size g
                    = (int (length (allocations_text g)), Some buf')
            \<and> take (length (allocations_text g) + 1) buf' = allocations_text g @ [CHR 0x00]))
    \<and> (buffer_size \<le> INT_MAX + 1
         \<and> (\<forall>r \<in> set (iterate g). length (leak_line r) \<le> INT_MAX)
         \<and> length (leaks_text g) < buffer_size \<longrightarrow>
         (\<exists>buf'. memm_get_leaks_string (Some buf) buffer_size g = (int (length (leaks_text g)), Some buf')
            \<and> take (length (leaks_text g) + 1) buf' = leaks_text g @ [CHR 0x00])))
   \<and> fst (memm_get_stats_string None buffer_size g) < 0
   \<and> fst (memm_get_stats_string (Some buf) 0 g) < 0
   \<and> fst (memm_get_allocations_string None buffer_size g) < 0
   \<and> fst (memm_get_allocations_string (Some buf) 0 g) < 0
   \<and> fst (memm_get_leaks_string None buffer_size g) < 0
   \<and> fst (memm_get_leaks_string (Some buf) 0 g) < 0"
proof (intro conjI impI)
  assume a: "1 \<le> buffer_size \<and> buffer_size \<le> length buf"
  then have cap: "1 \<le> buffer_size" "buffer_size \<le> length buf" by simp_all
  {
    assume "buffer_size \<le> length (stats_text g)"
    with cap(1) show "\<exists>buf'. memm_get_stats_string (Some buf) buffer_size g = (int buffer_size - 1, Some buf')
            \<and> take buffer_size buf' = take (buffer_size - 1) (stats_text g) @ [CHR 0x00]"
      using stats_string_correct [OF cap] by (rule report_cut)
  next
    assume h: "buffer_size \<le> INT_MAX + 1
         \<and> (\<forall>r \<in> set (iterate g). length (allocation_line r) \<le> INT_MAX)
         \<and> buffer_size \<le> length (allocations_text g)"
    then have f: "buffer_size \<le> INT_MAX + 1"
      and l: "\<forall>r \<in> set (iterate g). length (allocation_line r) \<le> INT_MAX"
      and s: "buffer_size \<le> length (allocations_text g)" by simp_all
    from cap(1) s show "\<exists>buf'. memm_get_allocations_string (Some buf) buffer_size g = (int buffer_size - 1, Some buf')
            \<and> take buffer_size buf' = take (buffer_size - 1) (allocations_text g) @ [CHR 0x00]"
      using allocations_string_correct [OF cap l, unfolded count_fits [OF f]] by (rule report_cut)
  next
    assume h: "buffer_size \<le> INT_MAX + 1
         \<and> (\<forall>r \<in> set (iterate g). length (leak_line r) \<le> INT_MAX)
         \<and> buffer_size \<le> length (leaks_text g)"
    then have f: "buffer_size \<le> INT_MAX + 1"
      and l: "\<forall>r \<in> set (iterate g). length (leak_line r) \<le> INT_MAX"
      and s: "buffer_size \<le> length (leaks_text g)" by simp_all
    from cap(1) s show "\<exists>buf'. memm_get_leaks_string (Some buf) buffer_size g = (int buffer_size - 1, Some buf')
            \<and> take buffer_size buf' = take (buffer_size - 1) (leaks_text g) @ [CHR 0x00]"
      using leaks_string_correct [OF cap l, unfolded count_fits [OF f]] by (rule report_cut)
  next
    assume "length (stats_text g) < buffer_size"
    then show "\<exists>buf'. memm_get_stats_string (Some buf) buffer_size g = (int (length (stats_text g)), Some buf')
            \<and> take (length (stats_text g) + 1) buf' = stats_text g @ [CHR 0x00]"
      using stats_string_correct [OF cap] by (rule report_whole)
  next
    assume h: "buffer_size \<le> INT_MAX + 1
         \<and> (\<forall>r \<in> set (iterate g). length (allocation_line r) \<le> INT_MAX)
         \<and> length (allocations_text g) < buffer_size"
    then have f: "buffer_size \<le> INT_MAX + 1"
      and l: "\<forall>r \<in> set (iterate g). length (allocation_line r) \<le> INT_MAX"
      and s: "length (allocations_text g) < buffer_size" by simp_all
    from s show "\<exists>buf'. memm_get_allocations_string (Some buf) buffer_size g
                    = (int (length (allocations_text g)), Some buf')
            \<and> take (length (allocations_text g) + 1) buf' = allocations_text g @ [CHR 0x00]"
      using allocations_string_correct [OF cap l, unfolded count_fits [OF f]] by (rule report_whole)
  next
    assume h: "buffer_size \<le> INT_MAX + 1
         \<and> (\<forall>r \<in> set (iterate g). length (leak_line r) \<le> INT_MAX)
         \<and> length (leaks_text g) < buffer_size"
    then have f: "buffer_size \<le> INT_MAX + 1"
      and l: "\<forall>r \<in> set (iterate g). length (leak_line r) \<le> INT_MAX"
      and s: "length (leaks_text g) < buffer_size" by simp_all
    from s show "\<exists>buf'. memm_get_leaks_string (Some buf) buffer_size g = (int (length (leaks_text g)), Some buf')
            \<and> take (length (leaks_text g) + 1) buf' = leaks_text g @ [CHR 0x00]"
      using leaks_string_correct [OF cap l, unfolded count_fits [OF f]] by (rule report_whole)
  }
qed (simp_all add: report_refused)

lemma concat_single_bucket: "h < n \<Longrightarrow> concat (map ((\<lambda>_. [])(h := c)) [0..<n]) = c"
proof (induction n)
  case 0
  then show ?case by simp
next
  case (Suc n)
  show ?case
  proof (cases "h = n")
    case True
    have "map ((\<lambda>_. [])(n := c)) [0..<n] = map (\<lambda>_. []) [0..<n]" by simp
    with True show ?thesis by (simp add: fun_upd_same del: fun_upd_apply)
  next
    case False
    with Suc.prems have "h < n" by simp
    from Suc.IH [OF this] False show ?thesis by simp
  qed
qed

lemma replicate_numeral: "replicate (numeral k) x = x # replicate (pred_numeral k) x"
  by (simp add: numeral_eq_Suc)

lemmas text_unfold =
  allocation_line_def leak_line_def allocations_total_line_def leaks_total_line_def
  fmt_p_def fmt_6zu_def fmt_zu_def fmt_d_def digits.simps replicate_numeral
  MEMM_HASH_TABLE_SIZE_def

theorem reports_truncation_witness:
  "(1::nat) \<le> 50 \<and> 50 \<le> length (replicate 64 CHR ''#'')
   \<and> 50 \<le> length (stats_text (g_memm (run [T_malloc 100 ''main.c'' 5] (start [64, 4096] []))))
   \<and> (\<exists>buf'. memm_get_stats_string (Some (replicate 64 CHR ''#'')) 50
                 (g_memm (run [T_malloc 100 ''main.c'' 5] (start [64, 4096] []))) = (49, Some buf')
          \<and> take 50 buf' = ''=== MEMORY STATISTICS ===\<newline>Total allocated:      1'' @ [CHR 0x00])
   \<and> 50 \<le> INT_MAX + 1
   \<and> iterate (g_memm (run [T_malloc 100 ''main.c'' 5] (start [64, 4096] [])))
        = [\<lparr>ptr = 64, size' = 100, file' = ''main.c'', line = 5, timestamp = - 1\<rparr>]
   \<and> length (allocation_line \<lparr>ptr = 64, size' = 100, file' = ''main.c'', line = 5, timestamp = - 1\<rparr>)
        \<le> INT_MAX
   \<and> 50 \<le> length (allocations_text (g_memm (run [T_malloc 100 ''main.c'' 5] (start [64, 4096] []))))
   \<and> (\<exists>buf'. memm_get_allocations_string (Some (replicate 64 CHR ''#'')) 50
                 (g_memm (run [T_malloc 100 ''main.c'' 5] (start [64, 4096] []))) = (49, Some buf')
          \<and> take 50 buf' = ''=== CURRENT ALLOCATIONS ===\<newline>  0x40:    100 bytes '' @ [CHR 0x00])
   \<and> (1::nat) \<le> 128 \<and> 128 \<le> length (replicate 128 CHR ''#'')
   \<and> 128 \<le> INT_MAX + 1
   \<and> length (leak_line \<lparr>ptr = 64, size' = 100, file' = ''main.c'', line = 5, timestamp = - 1\<rparr>)
        \<le> INT_MAX
   \<and> length (leaks_text (g_memm (run [T_malloc 100 ''main.c'' 5] (start [64, 4096] [])))) < 128
   \<and> (\<exists>buf'. memm_get_leaks_string (Some (replicate 128 CHR ''#'')) 128
                 (g_memm (run [T_malloc 100 ''main.c'' 5] (start [64, 4096] []))) = (107, Some buf')
          \<and> take 108 buf' =
               ''=== MEMORY LEAK REPORT ===\<newline>  LEAK:    100 bytes at 0x40 (main.c:5)\<newline>  TOTAL LEAKS: 1 allocations, 100 bytes\<newline>''
                 @ [CHR 0x00])
   \<and> fst (memm_get_stats_string None 50 (g_memm (run [T_malloc 100 ''main.c'' 5] (start [64, 4096] [])))) < 0
   \<and> fst (memm_get_leaks_string (Some (replicate 64 CHR ''#'')) 0
             (g_memm (run [T_malloc 100 ''main.c'' 5] (start [64, 4096] [])))) < 0"
proof -
  define g where "g = g_memm (run [T_malloc 100 ''main.c'' 5] (start [64, 4096] []))"
  define r where "r = \<lparr>ptr = 64, size' = 100, file' = ''main.c'', line = 5, timestamp = - 1\<rparr>"
  have it: "iterate g = [r]"
    unfolding g_def r_def by (simp add: run_unfold iterate_def concat_single_bucket)
  have counters: "total_allocated g = 100" "total_freed g = 0" "peak_memory g = 100"
    "allocation_count g = 1" "free_count g = 0"
    unfolding g_def by (simp_all add: run_unfold)
  have st: "stats_text g =
      ''=== MEMORY STATISTICS ===\<newline>Total allocated:      100 bytes\<newline>Total freed:          0 bytes\<newline>Current usage:        100 bytes\<newline>Peak memory usage:    100 bytes\<newline>Allocation calls:     1\<newline>Free calls:           0\<newline>Potential leaks:      1 objects\<newline>Hash table size:      2048 buckets\<newline>''"
    unfolding stats_text_def memm_get_current_usage_def memm_get_peak_usage_def
      memm_get_allocation_count_def memm_get_free_count_def counters
    by (simp add: text_unfold)
  have al: "allocations_text g =
      ''=== CURRENT ALLOCATIONS ===\<newline>  0x40:    100 bytes @ main.c:5\<newline>  Total: 1 allocations, 100 bytes\<newline>''"
    unfolding allocations_text_def listing_text_def it r_def
    by (simp add: text_unfold)
  have lk: "leaks_text g =
      ''=== MEMORY LEAK REPORT ===\<newline>  LEAK:    100 bytes at 0x40 (main.c:5)\<newline>  TOTAL LEAKS: 1 allocations, 100 bytes\<newline>''"
    unfolding leaks_text_def listing_text_def it r_def
    by (simp add: text_unfold)
  have lens: "length (stats_text g) = 267" "length (allocations_text g) = 94"
    "length (leaks_text g) = 107"
    unfolding st al lk by simp_all
  have cut: "take (50 - 1) (stats_text g) = ''=== MEMORY STATISTICS ===\<newline>Total allocated:      1''"
    "take (50 - 1) (allocations_text g) = ''=== CURRENT ALLOCATIONS ===\<newline>  0x40:    100 bytes ''"
    unfolding st al by simp_all
  have fits: "(50::nat) \<le> INT_MAX + 1" "(128::nat) \<le> INT_MAX + 1"
    by (simp_all add: INT_MAX_def)
  have lines: "length (allocation_line r) \<le> INT_MAX" "length (leak_line r) \<le> INT_MAX"
    unfolding r_def by (simp_all add: text_unfold INT_MAX_def)
  then have all_lines: "\<forall>r \<in> set (iterate g). length (allocation_line r) \<le> INT_MAX"
    "\<forall>r \<in> set (iterate g). length (leak_line r) \<le> INT_MAX"
    unfolding it by simp_all
  note t50 = reports_truncation [of 50 "replicate 64 CHR ''#''" g, unfolded lens cut]
  note t128 = reports_truncation [of 128 "replicate 128 CHR ''#''" g, unfolded lens]
  from t50 have a1: "\<exists>buf'. memm_get_stats_string (Some (replicate 64 CHR ''#'')) 50 g = (49, Some buf')
          \<and> take 50 buf' = ''=== MEMORY STATISTICS ===\<newline>Total allocated:      1'' @ [CHR 0x00]"
    by simp
  from t50 fits all_lines
  have a2: "\<exists>buf'. memm_get_allocations_string (Some (replicate 64 CHR ''#'')) 50 g = (49, Some buf')
          \<and> take 50 buf' = ''=== CURRENT ALLOCATIONS ===\<newline>  0x40:    100 bytes '' @ [CHR 0x00]"
    by simp
  from t50 have a3: "fst (memm_get_stats_string None 50 g) < 0"
    and a4: "fst (memm_get_leaks_string (Some (replicate 64 CHR ''#'')) 0 g) < 0"
    by simp_all
  from t128 fits all_lines
  have b: "\<exists>buf'. memm_get_leaks_string (Some (replicate 128 CHR ''#'')) 128 g = (107, Some buf')
          \<and> take 108 buf' = leaks_text g @ [CHR 0x00]"
    by simp
  from a1 a2 a3 a4 b lens fits lines it show ?thesis
    unfolding g_def [symmetric] r_def [symmetric] lk [symmetric] by simp
qed

text \<open>
  A program that allocates \<open>n\<close> times from one place, and is given memory every time:
  the registry holds \<open>n\<close> more records, each of that size and place.
\<close>

lemma malloc_step:
  assumes hs: "heap_script w = p # q # rest" and nz: "p \<noteq> 0" "q \<noteq> 0"
  shows "heap_script (step (T_malloc sz fl ln) w) = rest
     \<and> (\<exists>now. mset (iterate (g_memm (step (T_malloc sz fl ln) w)))
            = add_mset \<lparr>ptr = p, size' = sz, file' = fl, line = ln, timestamp = now\<rparr>
                (mset (iterate (g_memm w))))"
proof -
  have "heap_script (step (T_malloc sz fl ln) w) = rest
     \<and> (\<exists>now. hash_table (g_memm (step (T_malloc sz fl ln) w))
            = (hash_table (g_memm w))(memm_hash_ptr p :=
                 \<lparr>ptr = p, size' = sz, file' = fl, line = ln, timestamp = now\<rparr>
                   # hash_table (g_memm w) (memm_hash_ptr p)))"
    using assms
    by (cases "time_script w";
        simp add: memm_malloc_def libc_alloc_def memm_register_allocation_def
          libc_time_def Let_def;
        blast)
  then show ?thesis
    by (auto dest: mset_iterate_push)
qed

lemma malloc_run:
  "0 \<notin> set (heap_script w) \<Longrightarrow> 2 * n \<le> length (heap_script w) \<Longrightarrow>
     length (iterate (g_memm (run (replicate n (T_malloc sz fl ln)) w)))
        = length (iterate (g_memm w)) + n
   \<and> (\<forall>r \<in> set (iterate (g_memm (run (replicate n (T_malloc sz fl ln)) w))).
         r \<in> set (iterate (g_memm w)) \<or> (size' r = sz \<and> file' r = fl \<and> line r = ln))"
proof (induction n arbitrary: w)
  case 0
  then show ?case by simp
next
  case (Suc n)
  from Suc.prems(2) obtain p q rest where hs: "heap_script w = p # q # rest"
    by (cases "heap_script w"; cases "tl (heap_script w)") auto
  with Suc.prems have nz: "p \<noteq> 0" "q \<noteq> 0" and rest: "0 \<notin> set rest" "2 * n \<le> length rest"
    by auto
  let ?w = "step (T_malloc sz fl ln) w"
  from malloc_step [OF hs nz, of sz fl ln] obtain now where
    h: "heap_script ?w = rest"
    and m: "mset (iterate (g_memm ?w))
        = add_mset \<lparr>ptr = p, size' = sz, file' = fl, line = ln, timestamp = now\<rparr>
            (mset (iterate (g_memm w)))"
    by blast
  from m have "size (mset (iterate (g_memm ?w))) = Suc (size (mset (iterate (g_memm w))))"
    by (simp only: size_add_mset)
  then have len: "length (iterate (g_memm ?w)) = Suc (length (iterate (g_memm w)))"
    by (simp only: size_mset)
  from m have "set_mset (mset (iterate (g_memm ?w)))
      = insert \<lparr>ptr = p, size' = sz, file' = fl, line = ln, timestamp = now\<rparr>
          (set_mset (mset (iterate (g_memm w))))"
    by (simp only: set_mset_add_mset_insert)
  then have st: "set (iterate (g_memm ?w))
      = insert \<lparr>ptr = p, size' = sz, file' = fl, line = ln, timestamp = now\<rparr>
          (set (iterate (g_memm w)))"
    by (simp only: set_mset_mset)
  from rest h have "0 \<notin> set (heap_script ?w)" "2 * n \<le> length (heap_script ?w)"
    by simp_all
  from Suc.IH [OF this] len st show ?case
    by auto
qed

lemma concat_long:
  "\<forall>x \<in> set xs. k \<le> length (f x) \<Longrightarrow> k * length xs \<le> length (concat (map f xs))"
  by (induction xs) auto

lemma word_of_nat_nonzero:
  assumes "0 < n" and "n < 2 ^ 64"
  shows "(word_of_nat n :: 64 word) \<noteq> 0"
proof
  assume "(word_of_nat n :: 64 word) = 0"
  then have "unat (word_of_nat n :: 64 word) = 0" by simp
  then have "n mod 2 ^ 64 = 0" by (simp add: unat_of_nat)
  with assms show False by simp
qed

text \<open>
  The claim as stated, for every capacity from 1, fails for a listing once the capacity
  minus one is not an \<^verbatim>\<open>int\<close>. A program takes 70000000 blocks of 16 bytes at line 5
  of main.c (the allocator lays the blocks and the tracking nodes out 64 bytes apart), and
  asks for the listing of its allocations in a buffer of 2147483650 bytes. Every line has
  at least 31 characters, so the full listing is longer than the buffer; \<^verbatim>\<open>total_written\<close>
  passes \<open>INT_MAX\<close> on the way, and the function returns \<open>-2147483647\<close>, not 2147483649.
\<close>

theorem reports_truncation_counterexample:
  "(1::nat) \<le> 2147483650
   \<and> 2147483650 \<le> length (replicate 2147483650 CHR ''#'')
   \<and> 2147483650 \<le> length (allocations_text
        (g_memm (run (replicate 70000000 (T_malloc 16 ''main.c'' 5))
                   (start (map (\<lambda>k. word_of_nat (64 * k)) [1..<140000001]) []))))
   \<and> fst (memm_get_allocations_string (Some (replicate 2147483650 CHR ''#'')) 2147483650
        (g_memm (run (replicate 70000000 (T_malloc 16 ''main.c'' 5))
                   (start (map (\<lambda>k. word_of_nat (64 * k)) [1..<140000001]) []))))
       = - 2147483647"
proof -
  define n :: nat where "n = 70000000"
  define cap :: nat where "cap = 2147483650"
  define w where "w = start (map (\<lambda>k. word_of_nat (64 * k) :: ptr) [1..<140000001]) []"
  define g where "g = g_memm (run (replicate n (T_malloc 16 ''main.c'' 5)) w)"
  define buf where "buf = replicate cap CHR ''#''"
  have nz: "0 \<notin> set (heap_script w)"
  proof
    assume "0 \<in> set (heap_script w)"
    then obtain k where k: "1 \<le> k" "k < 140000001" and z: "(word_of_nat (64 * k) :: ptr) = 0"
      unfolding w_def start_def by auto
    from k have "0 < 64 * k" and "64 * k < 2 ^ 64" by simp_all
    then have "(word_of_nat (64 * k) :: ptr) \<noteq> 0" by (rule word_of_nat_nonzero)
    with z show False by simp
  qed
  have len: "2 * n \<le> length (heap_script w)"
    unfolding w_def start_def n_def by simp
  have e: "iterate (g_memm w) = []"
    unfolding w_def start_def by (simp add: iterate_memm_zero)
  from malloc_run [OF nz len, of 16 "''main.c''" 5]
  have count: "length (iterate g) = n"
    and recs: "\<forall>r \<in> set (iterate g). size' r = 16 \<and> file' r = ''main.c'' \<and> line r = 5"
    unfolding g_def [symmetric] e by simp_all
  have line: "31 \<le> length (allocation_line r) \<and> length (allocation_line r) \<le> INT_MAX"
    if "r \<in> set (iterate g)" for r
  proof -
    from that recs have r: "size' r = 16" "file' r = ''main.c''" "line r = 5" by simp_all
    have d: "length (fmt_d 5) = 1" by (simp add: fmt_d_def digits.simps)
    have f: "length ''main.c'' = 6" by simp
    from fmt_p_length [of "ptr r"] fmt_6zu_length [of 16] show ?thesis
      unfolding allocation_line_length r d f INT_MAX_def by arith
  qed
  then have ll: "\<forall>r \<in> set (iterate g). length (allocation_line r) \<le> INT_MAX"
    and lo: "\<forall>r \<in> set (iterate g). 31 \<le> length (allocation_line r)"
    by simp_all
  from lo have "31 * length (iterate g) \<le> length (concat (map allocation_line (iterate g)))"
    by (rule concat_long)
  then have "31 * n \<le> length (allocations_text g)"
    unfolding count allocations_text_def listing_text_def length_append by arith
  then have long: "cap \<le> length (allocations_text g)"
    unfolding n_def cap_def by arith
  have c: "1 \<le> cap" "cap \<le> length buf"
    unfolding cap_def buf_def by simp_all
  from long c have m: "min (length (allocations_text g)) (cap - 1) = cap - 1" by arith
  from allocations_string_correct [OF c ll]
  have "fst (memm_get_allocations_string (Some buf) cap g) = sint (word_of_nat (cap - 1) :: c_int)"
    unfolding m by auto
  also have "\<dots> = - 2147483647"
    unfolding cap_def by simp
  finally have "fst (memm_get_allocations_string (Some buf) cap g) = - 2147483647" .
  with long c show ?thesis
    unfolding g_def w_def buf_def n_def cap_def by simp
qed


end
